theory Spec2Isabelle
  imports Complex_Main "HOL-Library.AList" "HOL-Library.Sublist"
begin

section \<open>Python dictionaries\<close>

text \<open>
  A Python \<^verbatim>\<open>dict\<close> keeps its keys in insertion order: assigning to a present key
  keeps the key's position, assigning to a new key appends it, and \<^verbatim>\<open>del\<close> removes the
  key. It is modelled as an association list with these three operations. The order is
  kept because \<^verbatim>\<open>min\<close>, \<^verbatim>\<open>sorted\<close> and iteration see it.
\<close>

type_synonym ('k, 'v) dict = "('k \<times> 'v) list"

definition dict_get :: "('k, 'v) dict \<Rightarrow> 'k \<Rightarrow> 'v option" where
  "dict_get d k = map_of d k"

definition dict_keys :: "('k, 'v) dict \<Rightarrow> 'k list" where
  "dict_keys d = map fst d"

definition dict_contains :: "('k, 'v) dict \<Rightarrow> 'k \<Rightarrow> bool" where
  "dict_contains d k = (k \<in> set (dict_keys d))"

definition dict_set :: "('k, 'v) dict \<Rightarrow> 'k \<Rightarrow> 'v \<Rightarrow> ('k, 'v) dict" where
  "dict_set d k v = AList.update k v d"

definition dict_del :: "('k, 'v) dict \<Rightarrow> 'k \<Rightarrow> ('k, 'v) dict" where
  "dict_del d k = AList.delete k d"

section \<open>graph\_index.py: the data model\<close>

text \<open>
  Python floats that the program computes with (edge weights, traversal weights, time
  stamps, scores) are modelled as real numbers; rounding is outside the model. The ratings
  of the community reports are read from JSON files and can be NaN or infinite: they have a
  type of their own, \<open>py_number\<close>.
\<close>

record EntityMetadata =
  name :: string
  entity_type :: string
  description :: string
  commune :: string
  node_id :: string

record ChunkMetadata =
  chunk_id :: string
  content :: "string option"
  tokens :: int
  chunk_order_index :: int
  full_doc_id :: string
  chunk_commune :: string
  contribution_number :: "int option"
  contribution_type :: "string option"
  demographic :: "string option"

record EdgeInfo =
  target :: string
  rel_type :: string
  weight :: real

record GraphIndex =
  adjacency :: "(string, EdgeInfo list) dict"
  entities :: "(string, EntityMetadata) dict"
  name_index :: "(nat list, string) dict"
  chunks :: "(string, ChunkMetadata) dict"
  entity_source_ids :: "(string, string list) dict"
  loaded_communes :: "string set"
  total_nodes :: nat
  total_edges :: nat
  total_chunks :: nat

definition GraphIndex_init :: GraphIndex where
  "GraphIndex_init = \<lparr>adjacency = [], entities = [], name_index = [], chunks = [],
     entity_source_ids = [], loaded_communes = {}, total_nodes = 0, total_edges = 0,
     total_chunks = 0\<rparr>"

subsection \<open>Read operations\<close>

text \<open>
  \<^verbatim>\<open>get_neighbors\<close> is \<^verbatim>\<open>self._adjacency.get(entity_id, [])\<close> and \<^verbatim>\<open>get_entity\<close> is
  \<^verbatim>\<open>self._entities.get(entity_id)\<close>: both read with \<^verbatim>\<open>dict.get\<close>, which has no
  raising path (and, on the \<^verbatim>\<open>defaultdict\<close>, inserts nothing), so the models are total
  functions without an error branch.
\<close>

definition get_neighbors :: "GraphIndex \<Rightarrow> string \<Rightarrow> EdgeInfo list" where
  "get_neighbors idx eid = (case dict_get (adjacency idx) eid of None \<Rightarrow> [] | Some es \<Rightarrow> es)"

definition get_entity :: "GraphIndex \<Rightarrow> string \<Rightarrow> EntityMetadata option" where
  "get_entity idx eid = dict_get (entities idx) eid"

definition has_entity :: "GraphIndex \<Rightarrow> string \<Rightarrow> bool" where
  "has_entity idx eid = (dict_contains (entities idx) eid \<or> dict_contains (adjacency idx) eid)"

subsection \<open>A small index used in the concrete instances\<close>

text \<open>
  Three entities of collection \<open>c1\<close>: A -CONCERNE- B, A -RELATED\_TO- C,
  C -CONCERNE- B, each edge stored under both endpoints. It is the index the loader builds
  from the graph file \<open>graph_triangle\<close> below.
\<close>

definition mk_entity :: "string \<Rightarrow> string \<Rightarrow> string \<Rightarrow> EntityMetadata" where
  "mk_entity i ty c = \<lparr>name = i, entity_type = ty, description = [], commune = c, node_id = i\<rparr>"

definition mk_edge :: "string \<Rightarrow> string \<Rightarrow> real \<Rightarrow> EdgeInfo" where
  "mk_edge t r w = \<lparr>target = t, rel_type = r, weight = w\<rparr>"

definition idx_triangle :: GraphIndex where
  "idx_triangle = GraphIndex_init\<lparr>
     adjacency :=
       [(''A'', [mk_edge ''B'' ''CONCERNE'' 1, mk_edge ''C'' ''RELATED_TO'' (1/10)]),
        (''B'', [mk_edge ''A'' ''CONCERNE'' 1, mk_edge ''C'' ''CONCERNE'' 1]),
        (''C'', [mk_edge ''A'' ''RELATED_TO'' (1/10), mk_edge ''B'' ''CONCERNE'' 1])],
     entities :=
       [(''A'', mk_entity ''A'' ''UNKNOWN'' ''c1''), (''B'', mk_entity ''B'' ''UNKNOWN'' ''c1''),
        (''C'', mk_entity ''C'' ''UNKNOWN'' ''c1'')],
     name_index := [([65], ''A''), ([66], ''B''), ([67], ''C'')],
     loaded_communes := {''c1''}, total_nodes := 3, total_edges := 3\<rparr>"

section \<open>The caches\<close>

text \<open>
  The clock is a parameter: \<open>now\<close> is the value \<^verbatim>\<open>time.time()\<close> returns in the call
  (each \<^verbatim>\<open>get\<close> and \<^verbatim>\<open>put\<close> reads it once). A raise is the value \<open>Inl e\<close>; the
  partly updated object a raise leaves behind is not modelled.
\<close>

datatype py_error = ValueError | KeyError | StopIteration

text \<open>\<^verbatim>\<open>del d[k]\<close> raises \<^verbatim>\<open>KeyError\<close> when the key is absent.\<close>

definition py_del :: "('k, 'v) dict \<Rightarrow> 'k \<Rightarrow> py_error + ('k, 'v) dict" where
  "py_del d k = (if dict_contains d k then Inr (dict_del d k) else Inl KeyError)"

text \<open>
  \<^verbatim>\<open>min(xs, key=f)\<close> returns the first element whose key is least, and raises
  \<^verbatim>\<open>ValueError\<close> on an empty sequence.
\<close>

fun min_by :: "('a \<Rightarrow> real) \<Rightarrow> 'a \<Rightarrow> 'a list \<Rightarrow> 'a" where
  "min_by f m [] = m"
| "min_by f m (x # xs) = min_by f (if f x < f m then x else m) xs"

definition py_min :: "('a \<Rightarrow> real) \<Rightarrow> 'a list \<Rightarrow> py_error + 'a" where
  "py_min f xs = (case xs of [] \<Rightarrow> Inl ValueError | x # ys \<Rightarrow> Inr (min_by f x ys))"

subsection \<open>EmbeddingCache (nano\_graphrag/\_storage/vdb\_nanovectordb.py)\<close>

text \<open>
  \<^verbatim>\<open>_hash_text\<close> (the first 16 hex digits of SHA-256) is the parameter \<open>hash_text\<close>.
\<close>

record 'v EmbeddingCache =
  ec_cache :: "(string, 'v \<times> real) dict"
  ec_ttl_seconds :: int
  ec_max_entries :: int
  ec_hits :: nat
  ec_misses :: nat

definition EmbeddingCache_get ::
  "(string \<Rightarrow> string) \<Rightarrow> 'v EmbeddingCache \<Rightarrow> real \<Rightarrow> string \<Rightarrow> 'v option \<times> 'v EmbeddingCache" where
  "EmbeddingCache_get hash_text c now text =
     (let key = hash_text text in
      case dict_get (ec_cache c) key of
        None \<Rightarrow> (None, c\<lparr>ec_misses := ec_misses c + 1\<rparr>)
      | Some (embedding, timestamp) \<Rightarrow>
          if now - timestamp > real_of_int (ec_ttl_seconds c)
          then (None, c\<lparr>ec_cache := dict_del (ec_cache c) key, ec_misses := ec_misses c + 1\<rparr>)
          else (Some embedding, c\<lparr>ec_hits := ec_hits c + 1\<rparr>))"

text \<open>
  \<^verbatim>\<open>min(self._cache.keys(), key=lambda k: self._cache[k][1])\<close>: the minimum is taken
  over the items, by their time stamp, and the key of the item found is the oldest key;
  the keys of a dictionary are distinct, so this is the same key.
\<close>

definition entry_timestamp :: "'k \<times> 'v \<times> real \<Rightarrow> real" where
  "entry_timestamp e = snd (snd e)"

definition EmbeddingCache_put ::
  "(string \<Rightarrow> string) \<Rightarrow> 'v EmbeddingCache \<Rightarrow> real \<Rightarrow> string \<Rightarrow> 'v \<Rightarrow> py_error + 'v EmbeddingCache" where
  "EmbeddingCache_put hash_text c now text embedding =
     (if int (length (ec_cache c)) \<ge> ec_max_entries c then
        (case py_min entry_timestamp (ec_cache c) of
           Inl e \<Rightarrow> Inl e
         | Inr oldest \<Rightarrow>
             Inr (c\<lparr>ec_cache :=
                    dict_set (dict_del (ec_cache c) (fst oldest)) (hash_text text) (embedding, now)\<rparr>))
      else Inr (c\<lparr>ec_cache := dict_set (ec_cache c) (hash_text text) (embedding, now)\<rparr>))"

subsection \<open>LLMResponseCacheSingleton (nano\_graphrag/graphrag.py)\<close>

record 'v LLMResponseCacheSingleton =
  llm_cache :: "(string, 'v) dict"
  llm_timestamps :: "(string, real) dict"
  llm_ttl_seconds :: int
  llm_max_entries :: int
  llm_hits :: nat
  llm_misses :: nat

text \<open>The object \<^verbatim>\<open>__new__\<close> creates, with the class attributes' values.\<close>

definition LLMResponseCacheSingleton_new :: "'v LLMResponseCacheSingleton" where
  "LLMResponseCacheSingleton_new = \<lparr>llm_cache = [], llm_timestamps = [],
     llm_ttl_seconds = 3600, llm_max_entries = 1000, llm_hits = 0, llm_misses = 0\<rparr>"

definition LLMResponseCacheSingleton_get ::
  "'v LLMResponseCacheSingleton \<Rightarrow> real \<Rightarrow> string \<Rightarrow>
     py_error + ('v option \<times> 'v LLMResponseCacheSingleton)" where
  "LLMResponseCacheSingleton_get c now key =
     (case dict_get (llm_cache c) key of
        None \<Rightarrow> Inr (None, c\<lparr>llm_misses := llm_misses c + 1\<rparr>)
      | Some v \<Rightarrow>
          if now - (case dict_get (llm_timestamps c) key of None \<Rightarrow> 0 | Some t \<Rightarrow> t)
               > real_of_int (llm_ttl_seconds c)
          then (case py_del (llm_timestamps c) key of
                  Inl e \<Rightarrow> Inl e
                | Inr ts \<Rightarrow>
                    Inr (None, c\<lparr>llm_cache := dict_del (llm_cache c) key, llm_timestamps := ts,
                                 llm_misses := llm_misses c + 1\<rparr>))
          else Inr (Some v, c\<lparr>llm_hits := llm_hits c + 1\<rparr>))"

text \<open>
  The eviction loop of \<^verbatim>\<open>set\<close>: \<^verbatim>\<open>del self._cache[k]; del self._timestamps[k]\<close> for
  each \<open>k\<close> of the slice.
\<close>

fun evict_keys ::
  "string list \<Rightarrow> 'v LLMResponseCacheSingleton \<Rightarrow> py_error + 'v LLMResponseCacheSingleton" where
  "evict_keys [] c = Inr c"
| "evict_keys (k # ks) c =
     (case py_del (llm_cache c) k of
        Inl e \<Rightarrow> Inl e
      | Inr d \<Rightarrow>
          (case py_del (llm_timestamps c) k of
             Inl e \<Rightarrow> Inl e
           | Inr t \<Rightarrow> evict_keys ks (c\<lparr>llm_cache := d, llm_timestamps := t\<rparr>)))"

text \<open>
  \<^verbatim>\<open>sorted(self._timestamps.keys(), key=lambda k: self._timestamps[k])\<close> is a stable
  sort of the keys by their time stamp: the items are sorted by time stamp (\<open>sort_key\<close>
  is stable) and their keys taken.
\<close>

definition sorted_keys :: "(string, real) dict \<Rightarrow> string list" where
  "sorted_keys ts = map fst (sort_key snd ts)"

definition LLMResponseCacheSingleton_set ::
  "'v LLMResponseCacheSingleton \<Rightarrow> real \<Rightarrow> string \<Rightarrow> 'v \<Rightarrow> py_error + 'v LLMResponseCacheSingleton" where
  "LLMResponseCacheSingleton_set c now key v =
     (case (if int (length (llm_cache c)) \<ge> llm_max_entries c
            then evict_keys (take (length (sorted_keys (llm_timestamps c)) div 10)
                               (sorted_keys (llm_timestamps c))) c
            else Inr c) of
        Inl e \<Rightarrow> Inl e
      | Inr c' \<Rightarrow> Inr (c'\<lparr>llm_cache := dict_set (llm_cache c') key v,
                          llm_timestamps := dict_set (llm_timestamps c') key now\<rparr>))"

subsection \<open>GraphRAGCache (server.py)\<close>

text \<open>
  An \<^verbatim>\<open>OrderedDict\<close>; \<^verbatim>\<open>move_to_end\<close> on a hit makes the order of the keys the order
  of last use. \<^verbatim>\<open>put\<close> deletes the first key while the cache is at capacity;
  \<^verbatim>\<open>next(iter(...))\<close> on an empty dictionary raises \<^verbatim>\<open>StopIteration\<close>.
\<close>

record 'v GraphRAGCache =
  gc_cache :: "(string, 'v \<times> real) dict"
  gc_maxsize :: int
  gc_ttl_seconds :: int
  gc_hits :: nat
  gc_misses :: nat

definition move_to_end :: "('k, 'v) dict \<Rightarrow> 'k \<Rightarrow> ('k, 'v) dict" where
  "move_to_end d k = (case dict_get d k of None \<Rightarrow> d | Some v \<Rightarrow> dict_del d k @ [(k, v)])"

definition GraphRAGCache_get ::
  "'v GraphRAGCache \<Rightarrow> real \<Rightarrow> string \<Rightarrow> 'v option \<times> 'v GraphRAGCache" where
  "GraphRAGCache_get c now working_dir =
     (case dict_get (gc_cache c) working_dir of
        None \<Rightarrow> (None, c\<lparr>gc_misses := gc_misses c + 1\<rparr>)
      | Some (inst, timestamp) \<Rightarrow>
          if now - timestamp > real_of_int (gc_ttl_seconds c)
          then (None, c\<lparr>gc_cache := dict_del (gc_cache c) working_dir,
                         gc_misses := gc_misses c + 1\<rparr>)
          else (Some inst, c\<lparr>gc_cache := move_to_end (gc_cache c) working_dir,
                                  gc_hits := gc_hits c + 1\<rparr>))"

function evict_while_full :: "int \<Rightarrow> ('k, 'v) dict \<Rightarrow> py_error + ('k, 'v) dict" where
  "evict_while_full maxsize d =
     (if int (length d) \<ge> maxsize
      then (case d of [] \<Rightarrow> Inl StopIteration
            | e # es \<Rightarrow> evict_while_full maxsize (dict_del d (fst e)))
      else Inr d)"
  by pat_completeness auto
termination
proof (relation "measure (\<lambda>(m, d). length d)")
  show "wf (measure (\<lambda>(m :: int, d :: ('k, 'v) dict). length d))" by simp
next
  fix maxsize :: int and d :: "('k, 'v) dict" and e es
  assume "d = e # es"
  then have "length (dict_del d (fst e)) \<le> length es"
    by (cases e) (simp add: dict_del_def AList.delete_eq AList.length_delete_le)
  with \<open>d = e # es\<close> show "((maxsize, dict_del d (fst e)), (maxsize, d)) \<in> measure (\<lambda>(m, d). length d)"
    by simp
qed

definition GraphRAGCache_put ::
  "'v GraphRAGCache \<Rightarrow> real \<Rightarrow> string \<Rightarrow> 'v \<Rightarrow> py_error + 'v GraphRAGCache" where
  "GraphRAGCache_put c now working_dir inst =
     (case evict_while_full (gc_maxsize c) (gc_cache c) of
        Inl e \<Rightarrow> Inl e
      | Inr d \<Rightarrow> Inr (c\<lparr>gc_cache := dict_set d working_dir (inst, now)\<rparr>))"

subsection \<open>Cache states used in the concrete instances\<close>

definition key_of :: "nat \<Rightarrow> string" where
  "key_of i = replicate i CHR ''k''"

definition llm_full :: "nat LLMResponseCacheSingleton" where
  "llm_full = LLMResponseCacheSingleton_new\<lparr>
     llm_cache := map (\<lambda>i. (key_of i, i)) [0..<1000],
     llm_timestamps := map (\<lambda>i. (key_of i, real i)) [0..<1000]\<rparr>"

definition ec_two :: "nat EmbeddingCache" where
  "ec_two = \<lparr>ec_cache = [(''a'', (1, 5)), (''b'', (2, 3))], ec_ttl_seconds = 10,
     ec_max_entries = 2, ec_hits = 0, ec_misses = 0\<rparr>"

definition llm_two :: "nat LLMResponseCacheSingleton" where
  "llm_two = LLMResponseCacheSingleton_new\<lparr>llm_cache := [(''a'', 1), (''b'', 2)],
     llm_timestamps := [(''a'', 5), (''b'', 3)], llm_ttl_seconds := 10\<rparr>"

definition gc_two :: "nat GraphRAGCache" where
  "gc_two = \<lparr>gc_cache = [(''a'', (1, 5)), (''b'', (2, 3))], gc_maxsize = 2,
     gc_ttl_seconds = 10, gc_hits = 0, gc_misses = 0\<rparr>"

definition llm_ten :: "nat LLMResponseCacheSingleton" where
  "llm_ten = LLMResponseCacheSingleton_new\<lparr>
     llm_cache := [(''k0'', 0), (''k1'', 1), (''k2'', 2), (''k3'', 3), (''k4'', 4),
                   (''k5'', 5), (''k6'', 6), (''k7'', 7), (''k8'', 8), (''k9'', 9)],
     llm_timestamps := [(''k0'', 10), (''k1'', 9), (''k2'', 8), (''k3'', 7), (''k4'', 6),
                        (''k5'', 5), (''k6'', 4), (''k7'', 3), (''k8'', 2), (''k9'', 1)],
     llm_max_entries := 10\<rparr>"

section \<open>graph\_index.py: weighted expansion\<close>

definition RELATIONSHIP_WEIGHTS :: "(string, real) dict" where
  "RELATIONSHIP_WEIGHTS =
     [(''CONCERNE'', 1), (''HAS_SOURCE'', 9/10), (''SOURCED_BY'', 9/10),
      (''CONTRIBUE_A'', 8/10), (''EXPRIME'', 7/10), (''PROPOSE'', 6/10),
      (''FAIT_PARTIE_DE'', 5/10), (''APPARTIENT_A'', 3/10), (''RELATED_TO'', 1/10)]"

definition ENTITY_TYPE_PRIORITY :: "(string, int) dict" where
  "ENTITY_TYPE_PRIORITY =
     [(''COMMUNE'', 10), (''CONCEPT'', 8), (''THEME'', 7), (''CHUNK'', 6), (''ACTOR'', 5),
      (''ORGANIZATION'', 5), (''PERSON'', 3), (''LOCATION'', 2), (''UNKNOWN'', 1)]"

text \<open>
  A heap entry is the tuple \<^verbatim>\<open>(neg_weight, depth, counter, entity_id, path_from)\<close>;
  \<^verbatim>\<open>path_from\<close> is \<^verbatim>\<open>None\<close> for a seed and the dictionary
  \<^verbatim>\<open>{'source', 'rel_type', 'weight'}\<close> otherwise.
\<close>

record path_from =
  pf_source :: string
  pf_rel_type :: string
  pf_weight :: real

record heap_entry =
  neg_weight :: real
  depth :: int
  counter :: nat
  entity_id :: string
  came_from :: "path_from option"

record path =
  p_source :: string
  p_target :: string
  p_type :: string
  p_hop :: int
  p_weight :: real

record entity_result =
  r_id :: string
  r_name :: string
  r_type :: string
  r_description :: string
  r_commune :: string
  traversal_weight :: real

text \<open>
  \<^verbatim>\<open>heapq\<close> compares the tuples lexicographically. The first three components decide:
  every push takes a fresh counter, so no two entries agree on them and the comparison
  never reaches the entity id or the dictionary. \<^verbatim>\<open>heappop\<close> returns the least entry;
  the heap is modelled as the list of its entries, \<^verbatim>\<open>heappush\<close> appends and
  \<^verbatim>\<open>heappop\<close> takes the least entry out.
\<close>

definition entry_less :: "heap_entry \<Rightarrow> heap_entry \<Rightarrow> bool" where
  "entry_less a b =
     (neg_weight a < neg_weight b \<or>
      (neg_weight a = neg_weight b \<and>
       (depth a < depth b \<or> (depth a = depth b \<and> counter a < counter b))))"

fun heap_min :: "heap_entry \<Rightarrow> heap_entry list \<Rightarrow> heap_entry" where
  "heap_min m [] = m"
| "heap_min m (e # es) = heap_min (if entry_less e m then e else m) es"

definition heappush :: "heap_entry list \<Rightarrow> heap_entry \<Rightarrow> heap_entry list" where
  "heappush h e = h @ [e]"

definition heappop :: "heap_entry list \<Rightarrow> (heap_entry \<times> heap_entry list) option" where
  "heappop h = (case h of [] \<Rightarrow> None | e # es \<Rightarrow> Some (heap_min e es, remove1 (heap_min e es) h))"

record ew_state =
  heap :: "heap_entry list"
  visited :: "(string, real) dict"
  paths :: "path list"
  next_counter :: nat

text \<open>The seeding loop: a seed is pushed when \<^verbatim>\<open>has_entity\<close> holds for it.\<close>

definition push_seed :: "GraphIndex \<Rightarrow> string \<Rightarrow> ew_state \<Rightarrow> ew_state" where
  "push_seed idx seed s =
     (if has_entity idx seed
      then s\<lparr>heap := heappush (heap s)
                 \<lparr>neg_weight = 0, depth = 0, counter = next_counter s, entity_id = seed,
                  came_from = None\<rparr>,
             next_counter := next_counter s + 1\<rparr>
      else s)"

definition ew_init :: "GraphIndex \<Rightarrow> string list \<Rightarrow> ew_state" where
  "ew_init idx seed_entities =
     fold (push_seed idx) seed_entities \<lparr>heap = [], visited = [], paths = [], next_counter = 0\<rparr>"

text \<open>
  \<^verbatim>\<open>if commune_filter:\<close> holds for a non-empty set; \<^verbatim>\<open>None\<close> and the empty set switch
  the filter off.
\<close>

definition filter_excludes :: "string set option \<Rightarrow> EntityMetadata option \<Rightarrow> bool" where
  "filter_excludes commune_filter target_entity =
     (case commune_filter of
        None \<Rightarrow> False
      | Some S \<Rightarrow> S \<noteq> {} \<and>
          (case target_entity of None \<Rightarrow> False | Some te \<Rightarrow> commune te \<notin> S))"

definition is_chunk :: "EntityMetadata option \<Rightarrow> bool" where
  "is_chunk target_entity =
     (case target_entity of None \<Rightarrow> False | Some te \<Rightarrow> entity_type te = ''CHUNK'')"

definition type_bonus :: "EntityMetadata option \<Rightarrow> real" where
  "type_bonus target_entity =
     (case target_entity of
        None \<Rightarrow> 0
      | Some te \<Rightarrow>
          real_of_int (case dict_get ENTITY_TYPE_PRIORITY (entity_type te) of
                         None \<Rightarrow> 1 | Some p \<Rightarrow> p) / 10)"

text \<open>
  The body of the loop over the neighbours of the entity just settled. \<open>vis\<close> is the
  \<^verbatim>\<open>visited\<close> dictionary, which already holds that entity.
\<close>

definition push_neighbor ::
  "GraphIndex \<Rightarrow> string set option \<Rightarrow> bool \<Rightarrow> (string, real) dict \<Rightarrow> string \<Rightarrow> real \<Rightarrow> int \<Rightarrow>
     EdgeInfo \<Rightarrow> heap_entry list \<times> nat \<Rightarrow> heap_entry list \<times> nat" where
  "push_neighbor idx commune_filter include_chunks vis eid current_weight d edge hc =
     (if dict_contains vis (target edge) then hc
      else if \<not> include_chunks \<and> is_chunk (get_entity idx (target edge)) then hc
      else if filter_excludes commune_filter (get_entity idx (target edge)) then hc
      else (heappush (fst hc)
              \<lparr>neg_weight =
                 - (current_weight + weight edge + type_bonus (get_entity idx (target edge))),
               depth = d + 1, counter = snd hc, entity_id = target edge,
               came_from = Some \<lparr>pf_source = eid, pf_rel_type = rel_type edge,
                                 pf_weight = weight edge\<rparr>\<rparr>,
            snd hc + 1))"

text \<open>
  What one iteration does with the entry \<open>e\<close> it popped, \<open>h\<close> being the rest of the heap.
\<close>

definition settle ::
  "GraphIndex \<Rightarrow> int \<Rightarrow> string set option \<Rightarrow> bool \<Rightarrow> ew_state \<Rightarrow> heap_entry \<Rightarrow>
     heap_entry list \<Rightarrow> ew_state" where
  "settle idx max_hops commune_filter include_chunks s e h =
     (if dict_contains (visited s) (entity_id e) then s\<lparr>heap := h\<rparr>
      else
        let current_weight = - neg_weight e;
            vis = dict_set (visited s) (entity_id e) current_weight;
            ps = (case came_from e of
                    None \<Rightarrow> paths s
                  | Some cf \<Rightarrow>
                      paths s @ [\<lparr>p_source = pf_source cf, p_target = entity_id e,
                                 p_type = pf_rel_type cf, p_hop = depth e,
                                 p_weight = pf_weight cf\<rparr>])
        in if depth e \<ge> max_hops then s\<lparr>heap := h, visited := vis, paths := ps\<rparr>
           else
             let hc = fold (push_neighbor idx commune_filter include_chunks vis (entity_id e)
                              current_weight (depth e))
                        (get_neighbors idx (entity_id e)) (h, next_counter s)
             in s\<lparr>heap := fst hc, visited := vis, paths := ps, next_counter := snd hc\<rparr>)"

definition ew_step ::
  "GraphIndex \<Rightarrow> int \<Rightarrow> string set option \<Rightarrow> bool \<Rightarrow> ew_state \<Rightarrow> ew_state" where
  "ew_step idx max_hops commune_filter include_chunks s =
     (case heappop (heap s) of
        None \<Rightarrow> s
      | Some (e, h) \<Rightarrow> settle idx max_hops commune_filter include_chunks s e h)"

text \<open>
  The ids an expansion can push: the targets of the adjacency lists. They bound the
  loop: an iteration either settles an id that was not visited, or only shortens the heap.
\<close>

definition edge_targets :: "GraphIndex \<Rightarrow> string set" where
  "edge_targets idx = (\<Union>kv \<in> set (adjacency idx). target ` set (snd kv))"

definition ew_measure :: "GraphIndex \<Rightarrow> ew_state \<Rightarrow> nat \<times> nat" where
  "ew_measure idx s =
     (card ((edge_targets idx \<union> entity_id ` set (heap s)) - set (dict_keys (visited s))),
      length (heap s))"

section \<open>graph\_index.py: loading\<close>

subsection \<open>Strings\<close>

text \<open>
  The strings of the graph files and chunk stores are modelled over the code points below
  U+0100, a character of the type \<open>char\<close> each. \<^verbatim>\<open>str.strip()\<close> strips the white space:
  in that range the ASCII white space (U+0009 to U+000D, U+001C to U+0020), U+0085 and
  U+00A0.
\<close>

definition is_space_cp :: "nat \<Rightarrow> bool" where
  "is_space_cp n \<longleftrightarrow> (9 \<le> n \<and> n \<le> 13) \<or> (28 \<le> n \<and> n \<le> 32) \<or> n = 133 \<or> n = 160"

definition is_space :: "char \<Rightarrow> bool" where
  "is_space c = is_space_cp (of_char c)"

definition strip_chars :: "('a \<Rightarrow> bool) \<Rightarrow> 'a list \<Rightarrow> 'a list" where
  "strip_chars P s = rev (dropWhile P (rev (dropWhile P s)))"

definition strip :: "string \<Rightarrow> string" where
  "strip s = strip_chars is_space s"

text \<open>\<^verbatim>\<open>s.strip('"')\<close>; the quotation mark is the character 0x22.\<close>

definition strip_quotes :: "string \<Rightarrow> string" where
  "strip_quotes s = strip_chars (\<lambda>c. c = CHR 0x22) s"

text \<open>
  \<^verbatim>\<open>str.upper()\<close> can leave the range: the upper case of U+00B5 is U+039C, that of
  U+00FF is U+0178 and that of U+00DF the two letters SS. An upper-cased string is
  therefore a list of code points, given as numbers; the letters a..z, U+00E0 to U+00F6
  and U+00F8 to U+00FE have their upper case 32 code points below, and every other code
  point of the range is its own upper case.
\<close>

definition upper_cp :: "nat \<Rightarrow> nat list" where
  "upper_cp n =
     (if (97 \<le> n \<and> n \<le> 122) \<or> (224 \<le> n \<and> n \<le> 246) \<or> (248 \<le> n \<and> n \<le> 254)
      then [n - 32]
      else if n = 181 then [924]
      else if n = 223 then [83, 83]
      else if n = 255 then [376]
      else [n])"

definition upper :: "string \<Rightarrow> nat list" where
  "upper s = concat (map (\<lambda>c. upper_cp (of_char c)) s)"

text \<open>\<^verbatim>\<open>a or b\<close> on strings: \<open>a\<close> unless it is empty.\<close>

definition py_or :: "string \<Rightarrow> string \<Rightarrow> string" where
  "py_or a b = (if a \<noteq> [] then a else b)"

text \<open>
  \<^verbatim>\<open>s.split(sep)\<close> for a non-empty separator: the pieces between the occurrences of
  \<open>sep\<close>, found from the left; \<open>acc\<close> holds the current piece, reversed.
\<close>

function split_on :: "string \<Rightarrow> string \<Rightarrow> string \<Rightarrow> string list" where
  "split_on sep acc s =
     (if s = [] then [rev acc]
      else if sep \<noteq> [] \<and> prefix sep s then rev acc # split_on sep [] (drop (length sep) s)
      else split_on sep (hd s # acc) (tl s))"
  by pat_completeness auto
termination
  by (relation "measure (\<lambda>(sep, acc, s). length s)") auto

declare split_on.simps [simp del]

definition py_split :: "string \<Rightarrow> string \<Rightarrow> string list" where
  "py_split s sep = split_on sep [] s"

text \<open>\<^verbatim>\<open>str(n)\<close> for an integer.\<close>

definition digit_char :: "nat \<Rightarrow> char" where
  "digit_char d = ''0123456789'' ! d"

fun str_nat :: "nat \<Rightarrow> string" where
  "str_nat n = (if n < 10 then [digit_char n] else str_nat (n div 10) @ [digit_char (n mod 10)])"

declare str_nat.simps [simp del]

definition str_int :: "int \<Rightarrow> string" where
  "str_int i = (if i < 0 then CHR ''-'' # str_nat (nat (- i)) else str_nat (nat i))"

subsection \<open>The files of a collection\<close>

text \<open>
  A parsed GraphML document, as the loader reads it: the \<^verbatim>\<open>key\<close> elements (id and
  \<^verbatim>\<open>attr.name\<close>), the nodes (id and \<^verbatim>\<open>data\<close> children, each a key and a text) and
  the edges (source, target and \<^verbatim>\<open>data\<close> children). A missing attribute or text is the
  empty string, which is what \<^verbatim>\<open>.get(..., '')\<close> and \<^verbatim>\<open>d.text or ''\<close> make of it.
\<close>

record graph_node =
  gn_id :: string
  gn_data :: "(string \<times> string) list"

record graph_edge =
  ge_source :: string
  ge_target :: string
  ge_data :: "(string \<times> string) list"

record graphml =
  gm_keys :: "(string \<times> string) list"
  gm_nodes :: "graph_node list"
  gm_edges :: "graph_edge list"

datatype graph_file = GraphMissing | GraphParseError | GraphParsed graphml

text \<open>
  The chunk store: a JSON object from chunk ids to chunk records. An entry that is not a
  JSON object makes the loop over the chunks raise at its first \<^verbatim>\<open>chunk_info.get\<close>,
  before anything of it is stored. The fields carry the defaults of \<^verbatim>\<open>chunk_info.get\<close>;
  \<open>ci_content\<close> is \<open>None\<close> when the content is \<^verbatim>\<open>null\<close> or another value that is not a
  string and cannot be sliced.
\<close>

record chunk_info =
  ci_content :: "string option"
  ci_tokens :: int
  ci_chunk_order_index :: int
  ci_full_doc_id :: string
  ci_contribution_number :: "int option"
  ci_contribution_type :: "string option"
  ci_demographic :: "string option"

datatype chunk_entry = ChunkRecord chunk_info | ChunkIllTyped

datatype chunks_file = ChunksMissing | ChunksUnreadable | ChunksData "(string \<times> chunk_entry) list"

subsection \<open>\_load\_commune\<close>

definition build_key_map :: "(string \<times> string) list \<Rightarrow> (string, string) dict" where
  "build_key_map ks = fold (\<lambda>k km. dict_set km (fst k) (snd k)) ks []"

definition get_data :: "(string, string) dict \<Rightarrow> (string \<times> string) list \<Rightarrow> string \<Rightarrow> string" where
  "get_data key_map ds nm =
     (case find (\<lambda>d. dict_get key_map (fst d) = Some nm) ds of
        None \<Rightarrow> []
      | Some d \<Rightarrow> strip_quotes (strip (snd d)))"

text \<open>\<^verbatim>\<open>self._adjacency[k].append(e)\<close> on the \<^verbatim>\<open>defaultdict(list)\<close>.\<close>

definition adj_append ::
  "(string, EdgeInfo list) dict \<Rightarrow> string \<Rightarrow> EdgeInfo \<Rightarrow> (string, EdgeInfo list) dict" where
  "adj_append adj k e =
     dict_set adj k ((case dict_get adj k of None \<Rightarrow> [] | Some es \<Rightarrow> es) @ [e])"

definition load_node ::
  "string \<Rightarrow> (string, string) dict \<Rightarrow> graph_node \<Rightarrow> GraphIndex \<times> nat \<Rightarrow> GraphIndex \<times> nat" where
  "load_node commune_id key_map node st =
     (let idx = fst st; node_count = snd st; nid = strip_quotes (gn_id node) in
      if nid = [] then st
      else
        let entity_name = py_or (get_data key_map (gn_data node) ''entity_name'') nid;
            etype = py_or (get_data key_map (gn_data node) ''entity_type'') ''UNKNOWN'';
            descr = take 300 (get_data key_map (gn_data node) ''description'');
            normalized = strip_chars is_space_cp (upper entity_name);
            source_id_raw = get_data key_map (gn_data node) ''source_id'';
            chunk_ids = filter (\<lambda>s. s \<noteq> []) (map strip (py_split source_id_raw ''<SEP>''))
        in (idx\<lparr>entities :=
                   dict_set (entities idx) nid
                     \<lparr>name = entity_name, entity_type = etype, description = descr,
                      commune = commune_id, node_id = nid\<rparr>,
                 name_index := dict_set (name_index idx) normalized nid,
                 entity_source_ids :=
                   (if source_id_raw \<noteq> [] \<and> chunk_ids \<noteq> []
                    then dict_set (entity_source_ids idx) nid chunk_ids
                    else entity_source_ids idx)\<rparr>,
            node_count + 1))"

definition edge_rel_type :: "(string, string) dict \<Rightarrow> graph_edge \<Rightarrow> string" where
  "edge_rel_type key_map e =
     py_or (get_data key_map (ge_data e) ''type'')
       (py_or (get_data key_map (ge_data e) ''relationship_type'')
          (py_or (get_data key_map (ge_data e) ''label'') ''RELATED_TO''))"

definition edge_weight :: "(string, string) dict \<Rightarrow> graph_edge \<Rightarrow> real" where
  "edge_weight key_map e =
     (case dict_get RELATIONSHIP_WEIGHTS (edge_rel_type key_map e) of
        None \<Rightarrow> 1/10 | Some w \<Rightarrow> w)"

definition load_edge ::
  "(string, string) dict \<Rightarrow> graph_edge \<Rightarrow> GraphIndex \<times> nat \<Rightarrow> GraphIndex \<times> nat" where
  "load_edge key_map e st =
     (let idx = fst st; edge_count = snd st;
          src = strip_quotes (ge_source e); tgt = strip_quotes (ge_target e) in
      if src = [] \<or> tgt = [] then st
      else
        let rt = edge_rel_type key_map e; w = edge_weight key_map e;
            adj1 = adj_append (adjacency idx) src \<lparr>target = tgt, rel_type = rt, weight = w\<rparr>;
            adj2 = adj_append adj1 tgt \<lparr>target = src, rel_type = rt, weight = w\<rparr>
        in (idx\<lparr>adjacency := adj2\<rparr>, edge_count + 1))"

text \<open>
  The loop over the chunk records. It stops, raising, at an entry that is not an object,
  and at a record whose content cannot be sliced: that record's chunk metadata is stored by
  then, its pseudo-entity is not, and it is not counted.
\<close>

definition store_chunk :: "string \<Rightarrow> string \<Rightarrow> chunk_info \<Rightarrow> GraphIndex \<Rightarrow> GraphIndex" where
  "store_chunk commune_id cid ci idx =
     idx\<lparr>chunks :=
           dict_set (chunks idx) cid
             \<lparr>chunk_id = cid, content = ci_content ci, tokens = ci_tokens ci,
              chunk_order_index = ci_chunk_order_index ci,
              full_doc_id = ci_full_doc_id ci, chunk_commune = commune_id,
              contribution_number = ci_contribution_number ci,
              contribution_type = ci_contribution_type ci,
              demographic = ci_demographic ci\<rparr>\<rparr>"

definition store_chunk_entity ::
  "string \<Rightarrow> string \<Rightarrow> chunk_info \<Rightarrow> string \<Rightarrow> GraphIndex \<Rightarrow> GraphIndex" where
  "store_chunk_entity commune_id cid ci s idx =
     idx\<lparr>entities :=
           dict_set (entities idx) cid
             \<lparr>name = ''CONTRIBUTION_'' @ str_int (ci_chunk_order_index ci),
              entity_type = ''CHUNK'', description = take 200 s,
              commune = commune_id, node_id = cid\<rparr>\<rparr>"

fun load_chunk_records ::
  "string \<Rightarrow> (string \<times> chunk_entry) list \<Rightarrow> GraphIndex \<times> nat \<Rightarrow> bool \<times> GraphIndex \<times> nat" where
  "load_chunk_records commune_id [] st = (True, st)"
| "load_chunk_records commune_id ((cid, ChunkIllTyped) # rest) st = (False, st)"
| "load_chunk_records commune_id ((cid, ChunkRecord ci) # rest) st =
     (case ci_content ci of
        None \<Rightarrow> (False, store_chunk commune_id cid ci (fst st), snd st)
      | Some s \<Rightarrow>
          load_chunk_records commune_id rest
            (store_chunk_entity commune_id cid ci s (store_chunk commune_id cid ci (fst st)),
             snd st + 1))"

text \<open>The \<^verbatim>\<open>HAS_SOURCE\<close> and \<^verbatim>\<open>SOURCED_BY\<close> entries of one entity.\<close>

definition link_chunk :: "string \<Rightarrow> string \<Rightarrow> GraphIndex \<Rightarrow> GraphIndex" where
  "link_chunk eid cid idx =
     (if dict_contains (chunks idx) cid
      then idx\<lparr>adjacency :=
                 adj_append
                   (adj_append (adjacency idx) eid
                      \<lparr>target = cid, rel_type = ''HAS_SOURCE'',
                       weight = (case dict_get RELATIONSHIP_WEIGHTS ''HAS_SOURCE'' of
                                   None \<Rightarrow> 9/10 | Some w \<Rightarrow> w)\<rparr>)
                   cid
                   \<lparr>target = eid, rel_type = ''SOURCED_BY'',
                    weight = (case dict_get RELATIONSHIP_WEIGHTS ''HAS_SOURCE'' of
                                None \<Rightarrow> 9/10 | Some w \<Rightarrow> w)\<rparr>\<rparr>
      else idx)"

definition link_entity :: "string \<Rightarrow> string \<times> string list \<Rightarrow> GraphIndex \<Rightarrow> GraphIndex" where
  "link_entity commune_id src idx =
     (case dict_get (entities idx) (fst src) of
        None \<Rightarrow> idx
      | Some entity \<Rightarrow>
          if commune entity = commune_id then fold (link_chunk (fst src)) (snd src) idx
          else idx)"

text \<open>
  \<^verbatim>\<open>_load_commune_chunks\<close>: the index it leaves and the count it returns, \<open>None\<close> when
  the loop over the records raised.
\<close>

definition load_commune_chunks ::
  "string \<Rightarrow> chunks_file \<Rightarrow> GraphIndex \<Rightarrow> GraphIndex \<times> nat option" where
  "load_commune_chunks commune_id cf idx =
     (case cf of
        ChunksMissing \<Rightarrow> (idx, Some 0)
      | ChunksUnreadable \<Rightarrow> (idx, Some 0)
      | ChunksData recs \<Rightarrow>
          (case load_chunk_records commune_id recs (idx, 0) of
             (False, st) \<Rightarrow> (fst st, None)
           | (True, st) \<Rightarrow>
               (fold (link_entity commune_id) (entity_source_ids (fst st)) (fst st),
                Some (snd st))))"

definition load_nodes :: "string \<Rightarrow> (string, string) dict \<Rightarrow> graph_node list \<Rightarrow> GraphIndex \<Rightarrow> GraphIndex \<times> nat" where
  "load_nodes commune_id key_map ns idx = fold (load_node commune_id key_map) ns (idx, 0)"

definition load_edges :: "(string, string) dict \<Rightarrow> graph_edge list \<Rightarrow> GraphIndex \<Rightarrow> GraphIndex \<times> nat" where
  "load_edges key_map es idx = fold (load_edge key_map) es (idx, 0)"

text \<open>
  \<^verbatim>\<open>_load_commune\<close>. A missing graph file returns at once; a parse error is raised by
  \<^verbatim>\<open>ET.parse\<close> before anything is stored and is caught; an exception from the chunk
  loader is caught after the counts of nodes and edges were added.
\<close>

definition load_commune :: "string \<Rightarrow> graph_file \<Rightarrow> chunks_file \<Rightarrow> GraphIndex \<Rightarrow> GraphIndex" where
  "load_commune commune_id gf cf idx =
     (case gf of
        GraphMissing \<Rightarrow> idx
      | GraphParseError \<Rightarrow> idx
      | GraphParsed g \<Rightarrow>
          let key_map = build_key_map (gm_keys g);
              ns = load_nodes commune_id key_map (gm_nodes g) idx;
              es = load_edges key_map (gm_edges g) (fst ns);
              idx1 = (fst es)\<lparr>total_nodes := total_nodes (fst es) + snd ns,
                               total_edges := total_edges (fst es) + snd es,
                               loaded_communes := insert commune_id (loaded_communes (fst es))\<rparr>;
              ch = load_commune_chunks commune_id cf idx1
          in (case snd ch of
                None \<Rightarrow> fst ch
              | Some n \<Rightarrow> (fst ch)\<lparr>total_chunks := total_chunks (fst ch) + n\<rparr>))"

text \<open>
  \<^verbatim>\<open>initialize\<close> over the collections found, each with its graph file and chunk store.
\<close>

definition initialize :: "(string \<times> graph_file \<times> chunks_file) list \<Rightarrow> GraphIndex \<Rightarrow> GraphIndex" where
  "initialize collections idx =
     fold (\<lambda>c. load_commune (fst c) (fst (snd c)) (snd (snd c))) collections idx"

subsection \<open>What the loader counts\<close>

text \<open>The nodes and edges the loops do not skip, and their totals over the collections.\<close>

definition node_kept :: "graph_node \<Rightarrow> bool" where
  "node_kept n \<longleftrightarrow> strip_quotes (gn_id n) \<noteq> []"

definition edge_kept :: "graph_edge \<Rightarrow> bool" where
  "edge_kept e \<longleftrightarrow> strip_quotes (ge_source e) \<noteq> [] \<and> strip_quotes (ge_target e) \<noteq> []"

definition file_nodes :: "graph_file \<Rightarrow> graph_node list" where
  "file_nodes gf = (case gf of GraphParsed g \<Rightarrow> gm_nodes g | _ \<Rightarrow> [])"

definition file_edges :: "graph_file \<Rightarrow> graph_edge list" where
  "file_edges gf = (case gf of GraphParsed g \<Rightarrow> gm_edges g | _ \<Rightarrow> [])"

definition count_nodes :: "(string \<times> graph_file \<times> chunks_file) list \<Rightarrow> nat" where
  "count_nodes collections = (\<Sum>c \<leftarrow> collections. length (filter node_kept (file_nodes (fst (snd c)))))"

definition count_edges :: "(string \<times> graph_file \<times> chunks_file) list \<Rightarrow> nat" where
  "count_edges collections = (\<Sum>c \<leftarrow> collections. length (filter edge_kept (file_edges (fst (snd c)))))"

text \<open>The adjacency entries one edge gives under the id \<open>x\<close>.\<close>

definition entries_under :: "(string, string) dict \<Rightarrow> string \<Rightarrow> graph_edge \<Rightarrow> EdgeInfo list" where
  "entries_under key_map x e =
     (if edge_kept e then
        (if strip_quotes (ge_source e) = x
         then [\<lparr>target = strip_quotes (ge_target e), rel_type = edge_rel_type key_map e,
                 weight = edge_weight key_map e\<rparr>] else []) @
        (if strip_quotes (ge_target e) = x
         then [\<lparr>target = strip_quotes (ge_source e), rel_type = edge_rel_type key_map e,
                 weight = edge_weight key_map e\<rparr>] else [])
      else [])"

text \<open>
  A collection whose graph has one node and one edge, the node's id and the edge's source
  being two quotation marks, and a collection with two nodes and an edge between them.
\<close>

definition graph_quotes :: graphml where
  "graph_quotes = \<lparr>gm_keys = [],
     gm_nodes = [\<lparr>gn_id = [CHR 0x22, CHR 0x22], gn_data = []\<rparr>],
     gm_edges = [\<lparr>ge_source = [CHR 0x22, CHR 0x22], ge_target = ''B'', ge_data = []\<rparr>]\<rparr>"

definition graph_xy :: graphml where
  "graph_xy = \<lparr>gm_keys = [(''d0'', ''entity_type''), (''d1'', ''type'')],
     gm_nodes = [\<lparr>gn_id = ''X'', gn_data = [(''d0'', ''CONCEPT'')]\<rparr>,
                 \<lparr>gn_id = ''Y'', gn_data = []\<rparr>],
     gm_edges = [\<lparr>ge_source = ''X'', ge_target = ''Y'', ge_data = [(''d1'', ''CONCERNE'')]\<rparr>]\<rparr>"

text \<open>The files of the indexes \<open>idx_triangle\<close> and \<open>idx_chunk\<close>.\<close>

definition graph_triangle :: graphml where
  "graph_triangle = \<lparr>gm_keys = [(''d0'', ''type'')],
     gm_nodes = [\<lparr>gn_id = ''A'', gn_data = []\<rparr>, \<lparr>gn_id = ''B'', gn_data = []\<rparr>,
                 \<lparr>gn_id = ''C'', gn_data = []\<rparr>],
     gm_edges = [\<lparr>ge_source = ''A'', ge_target = ''B'', ge_data = [(''d0'', ''CONCERNE'')]\<rparr>,
                 \<lparr>ge_source = ''A'', ge_target = ''C'', ge_data = []\<rparr>,
                 \<lparr>ge_source = ''C'', ge_target = ''B'', ge_data = [(''d0'', ''CONCERNE'')]\<rparr>]\<rparr>"

definition graph_actor :: graphml where
  "graph_actor = \<lparr>gm_keys = [(''d0'', ''entity_type''), (''d1'', ''source_id'')],
     gm_nodes = [\<lparr>gn_id = ''A'', gn_data = [(''d0'', ''ACTOR''), (''d1'', ''K'')]\<rparr>],
     gm_edges = []\<rparr>"

definition chunks_actor :: chunks_file where
  "chunks_actor = ChunksData
     [(''K'', ChunkRecord \<lparr>ci_content = Some ''texte'', ci_tokens = 1, ci_chunk_order_index = 0,
                            ci_full_doc_id = ''doc'', ci_contribution_number = None,
                            ci_contribution_type = None, ci_demographic = None\<rparr>)]"

text \<open>The number of adjacency entries of an index.\<close>

definition num_entries :: "GraphIndex \<Rightarrow> nat" where
  "num_entries idx = (\<Sum>kv \<leftarrow> adjacency idx. length (snd kv))"

section \<open>server.py: CommunityCache\<close>

subsection \<open>Strings and numbers\<close>

text \<open>
  A Python \<^verbatim>\<open>str\<close> is a sequence of Unicode code points, here a list of natural numbers.
  Three things the cache does depend on the interpreter that runs it: the class \<^verbatim>\<open>\w\<close> of
  the regular expressions and \<^verbatim>\<open>str.lower()\<close>, which follow its Unicode database, and the
  order in which a set of strings is iterated, which follows its hash function. They are
  parameters of the model, so that what is proved holds whatever they are:
  \<open>word_char U c\<close> says that the code point \<open>c\<close> is in \<^verbatim>\<open>\w\<close>; \<open>lower U s\<close> is
  \<^verbatim>\<open>s.lower()\<close>, a function of the whole string (the lower case of a capital sigma depends
  on where it stands, and one code point can become two); \<open>set_order U xs\<close> is the order in
  which the set of the strings \<open>xs\<close> is iterated.
\<close>

type_synonym str = "nat list"

record interpreter =
  word_char :: "nat \<Rightarrow> bool"
  lower :: "str \<Rightarrow> str"
  set_order :: "str list \<Rightarrow> str list"

text \<open>The \<^verbatim>\<open>str\<close> of an ASCII literal.\<close>

definition py_str :: "string \<Rightarrow> str" where
  "py_str s = map of_char s"

text \<open>
  What the database of Python 3 says of the code points below U+0100: the word characters
  are the ASCII letters, digits and underscore, the letters of Latin-1, and its superscript
  digits, ordinal indicators and fractions; the capital letters A..Z and U+00C0..U+00DE
  (but for the multiplication sign U+00D7) have their lower case 32 code points above. The
  strings of the concrete instances consist of such code points only, and the interpreter of
  the concrete instances iterates a set in the order in which its elements first occur.
\<close>

definition latin1_word :: "nat \<Rightarrow> bool" where
  "latin1_word n \<longleftrightarrow>
     (48 \<le> n \<and> n \<le> 57) \<or> (65 \<le> n \<and> n \<le> 90) \<or> n = 95 \<or> (97 \<le> n \<and> n \<le> 122) \<or>
     n = 170 \<or> n = 178 \<or> n = 179 \<or> n = 181 \<or> n = 185 \<or> n = 186 \<or> (188 \<le> n \<and> n \<le> 190) \<or>
     (192 \<le> n \<and> n \<le> 214) \<or> (216 \<le> n \<and> n \<le> 246) \<or> (248 \<le> n \<and> n \<le> 255)"

definition latin1_lower :: "nat \<Rightarrow> nat" where
  "latin1_lower n =
     (if (65 \<le> n \<and> n \<le> 90) \<or> (192 \<le> n \<and> n \<le> 214) \<or> (216 \<le> n \<and> n \<le> 222) then n + 32 else n)"

definition latin1 :: interpreter where
  "latin1 = \<lparr>word_char = latin1_word, lower = map latin1_lower, set_order = remdups\<rparr>"

text \<open>
  A number as \<^verbatim>\<open>json.load\<close> reads it: an \<^verbatim>\<open>int\<close> or a finite \<^verbatim>\<open>float\<close>, given by its
  value, or one of the three floats that \<^verbatim>\<open>json.load\<close> reads from \<^verbatim>\<open>NaN\<close>,
  \<^verbatim>\<open>Infinity\<close> and \<^verbatim>\<open>-Infinity\<close>. The booleans compare as 1 and 0. \<open>num_less x b\<close> is
  \<^verbatim>\<open>x < b\<close> and \<open>num_ge x b\<close> is \<^verbatim>\<open>x >= b\<close> for a finite float \<open>b\<close>: every comparison
  with NaN is false.
\<close>

datatype py_number = PyNum real | PyNaN | PyInf | PyNegInf

fun num_less :: "py_number \<Rightarrow> real \<Rightarrow> bool" where
  "num_less (PyNum a) b = (a < b)"
| "num_less PyNaN b = False"
| "num_less PyInf b = False"
| "num_less PyNegInf b = True"

fun num_ge :: "py_number \<Rightarrow> real \<Rightarrow> bool" where
  "num_ge (PyNum a) b = (b \<le> a)"
| "num_ge PyNaN b = False"
| "num_ge PyInf b = True"
| "num_ge PyNegInf b = False"

subsection \<open>Tokens\<close>

text \<open>
  \<^verbatim>\<open>re.findall(r'\b\w{3,}\b', text)\<close>: the maximal runs of word characters that are at
  least three code points long, from left to right; \<open>acc\<close> holds the current run, reversed.
\<close>

fun word_runs :: "(nat \<Rightarrow> bool) \<Rightarrow> str \<Rightarrow> str \<Rightarrow> str list" where
  "word_runs w acc [] = (if acc = [] then [] else [rev acc])"
| "word_runs w acc (c # cs) =
     (if w c then word_runs w (c # acc) cs
      else (if acc = [] then [] else [rev acc]) @ word_runs w [] cs)"

definition findall_words :: "interpreter \<Rightarrow> str \<Rightarrow> str list" where
  "findall_words U s = filter (\<lambda>w. 3 \<le> length w) (word_runs (word_char U) [] s)"

definition stop_words :: "str set" where
  "stop_words = set (map py_str
     [''le'', ''la'', ''les'', ''de'', ''du'', ''des'', ''un'', ''une'', ''et'', ''ou'',
      ''que'', ''qui'', ''dans'', ''pour'', ''sur'', ''avec'', ''par'', ''est'', ''sont'',
      ''ce'', ''cette'', ''ces'', ''au'', ''aux'', ''en'', ''il'', ''elle'', ''nous'', ''vous''])"

text \<open>
  \<^verbatim>\<open>set(re.findall(...)) - stop_words\<close> of the lower-cased string, as the list of its
  elements in the order in which the loops over it iterate.
\<close>

definition token_set :: "interpreter \<Rightarrow> str \<Rightarrow> str list" where
  "token_set U s = set_order U (filter (\<lambda>w. w \<notin> stop_words) (findall_words U (lower U s)))"

text \<open>\<^verbatim>\<open>k in s\<close> on strings: \<open>k\<close> occurs in \<open>s\<close>.\<close>

fun str_contains :: "str \<Rightarrow> str \<Rightarrow> bool" where
  "str_contains k [] = (k = [])"
| "str_contains k (c # cs) = (prefix k (c # cs) \<or> str_contains k cs)"

subsection \<open>The community reports of a collection\<close>

text \<open>
  The report file of a collection: a JSON object from community ids to records with
  \<^verbatim>\<open>report_json\<close>, \<^verbatim>\<open>nodes\<close> and \<^verbatim>\<open>chunk_ids\<close>. \<open>cd_report\<close> is \<open>None\<close> when
  \<^verbatim>\<open>report_json\<close> is missing or empty, \<open>rj_rating\<close> is \<open>None\<close> when the report has no
  rating; a rating that is not a number makes the comparison with 4.0 raise. The records
  and their reports are JSON objects, and titles and summaries are strings.
\<close>

datatype rating_json = RatingNumber py_number | RatingNotNumber

record report_json =
  rj_rating :: "rating_json option"
  rj_title :: str
  rj_summary :: str

record community_data =
  cd_report :: "report_json option"
  cd_nodes :: "str list"
  cd_chunk_ids :: "str list"

datatype communities_file =
  CommunitiesUnreadable | CommunitiesData "(str \<times> community_data) list"

record community =
  commune_id :: str
  community_id :: str
  title :: str
  summary :: str
  rating :: py_number
  nodes :: "str list"
  chunk_ids :: "str list"

record scored_community = community +
  score :: real

text \<open>\<^verbatim>\<open>community.copy()\<close> with the key \<^verbatim>\<open>'score'\<close> set.\<close>

definition result_of :: "community \<Rightarrow> real \<Rightarrow> scored_community" where
  "result_of c s = community.extend c \<lparr>score = s\<rparr>"

text \<open>
  The cache: the communities by collection and community id, and the keyword index, a
  \<^verbatim>\<open>defaultdict(list)\<close> read with \<^verbatim>\<open>.get(keyword, [])\<close>: a function from keywords to
  lists of \<^verbatim>\<open>(commune_id, community_id, score)\<close>. The time of the last refresh and the
  load time are not modelled.
\<close>

record CommunityCache =
  communities :: "(str, (str, community) dict) dict"
  keyword_index :: "str \<Rightarrow> (str \<times> str \<times> real) list"

definition CommunityCache_init :: CommunityCache where
  "CommunityCache_init = \<lparr>communities = [], keyword_index = (\<lambda>k. [])\<rparr>"



subsection \<open>\_refresh\_cache\<close>

definition title_score :: "interpreter \<Rightarrow> str \<Rightarrow> str \<Rightarrow> real" where
  "title_score U ttl keyword = (if str_contains keyword (lower U ttl) then 3 else 0)"

definition summary_score :: "interpreter \<Rightarrow> str \<Rightarrow> str \<Rightarrow> real" where
  "summary_score U smry keyword = (if str_contains keyword (lower U smry) then 1 else 0)"

definition total_score :: "interpreter \<Rightarrow> str \<Rightarrow> str \<Rightarrow> str \<Rightarrow> real" where
  "total_score U ttl smry keyword = title_score U ttl keyword + summary_score U smry keyword"

definition add_keyword ::
  "interpreter \<Rightarrow> str \<Rightarrow> str \<Rightarrow> str \<Rightarrow> str \<Rightarrow> str \<Rightarrow>
     (str \<Rightarrow> (str \<times> str \<times> real) list) \<Rightarrow> (str \<Rightarrow> (str \<times> str \<times> real) list)" where
  "add_keyword U cid comm_id ttl smry keyword ki =
     (if total_score U ttl smry keyword > 0
      then ki(keyword := ki keyword @ [(cid, comm_id, total_score U ttl smry keyword)])
      else ki)"

text \<open>The keywords of \<^verbatim>\<open>f"{title} {summary}"\<close>; the space is the code point 32.\<close>

definition keywords_of :: "interpreter \<Rightarrow> str \<Rightarrow> str \<Rightarrow> str list" where
  "keywords_of U ttl smry = token_set U (ttl @ [32] @ smry)"

definition get_community :: "CommunityCache \<Rightarrow> str \<Rightarrow> str \<Rightarrow> community option" where
  "get_community cc cid comm_id =
     (case dict_get (communities cc) cid of
        None \<Rightarrow> None
      | Some inner \<Rightarrow> dict_get inner comm_id)"

definition store_community :: "str \<Rightarrow> str \<Rightarrow> community \<Rightarrow> CommunityCache \<Rightarrow> CommunityCache" where
  "store_community cid comm_id c cc =
     cc\<lparr>communities :=
          dict_set (communities cc) cid
            (dict_set (case dict_get (communities cc) cid of None \<Rightarrow> [] | Some inner \<Rightarrow> inner)
               comm_id c)\<rparr>"

text \<open>
  The loop over the communities of one file. A community is skipped when
  \<^verbatim>\<open>rating < 4.0\<close> holds, and stored and indexed when it does not. The loop ends early,
  with what it has stored, when a rating is not a number: the exception is caught around
  the file.
\<close>

fun load_communities ::
  "interpreter \<Rightarrow> str \<Rightarrow> (str \<times> community_data) list \<Rightarrow> CommunityCache \<Rightarrow> CommunityCache" where
  "load_communities U cid [] cc = cc"
| "load_communities U cid ((comm_id, comm_data) # rest) cc =
     (case cd_report comm_data of
        None \<Rightarrow> load_communities U cid rest cc
      | Some report \<Rightarrow>
          (case (case rj_rating report of None \<Rightarrow> RatingNumber (PyNum 0) | Some r \<Rightarrow> r) of
             RatingNotNumber \<Rightarrow> cc
           | RatingNumber r \<Rightarrow>
               if num_less r 4 then load_communities U cid rest cc
               else
                 let cc1 = store_community cid comm_id
                             \<lparr>commune_id = cid, community_id = comm_id,
                              title = rj_title report, summary = rj_summary report, rating = r,
                              nodes = cd_nodes comm_data, chunk_ids = cd_chunk_ids comm_data\<rparr> cc;
                     ki = fold (add_keyword U cid comm_id (rj_title report) (rj_summary report))
                            (keywords_of U (rj_title report) (rj_summary report))
                            (keyword_index cc1)
                 in load_communities U cid rest (cc1\<lparr>keyword_index := ki\<rparr>)))"

definition load_commune_reports ::
  "interpreter \<Rightarrow> str \<times> communities_file \<Rightarrow> CommunityCache \<Rightarrow> CommunityCache" where
  "load_commune_reports U cf cc =
     (case snd cf of
        CommunitiesUnreadable \<Rightarrow> cc
      | CommunitiesData d \<Rightarrow>
          load_communities U (fst cf) d (cc\<lparr>communities := dict_set (communities cc) (fst cf) []\<rparr>))"

definition refresh_cache ::
  "interpreter \<Rightarrow> (str \<times> communities_file) list \<Rightarrow> CommunityCache \<Rightarrow> CommunityCache" where
  "refresh_cache U files cc =
     fold (load_commune_reports U) files (cc\<lparr>communities := [], keyword_index := (\<lambda>k. [])\<rparr>)"

subsection \<open>search\<close>

definition query_words :: "interpreter \<Rightarrow> str \<Rightarrow> str list" where
  "query_words U query = token_set U query"

text \<open>\<^verbatim>\<open>scores[key] += base_score\<close> on the \<^verbatim>\<open>defaultdict(float)\<close>.\<close>

definition add_score ::
  "str \<times> str \<times> real \<Rightarrow> (str \<times> str, real) dict \<Rightarrow> (str \<times> str, real) dict" where
  "add_score e sc =
     dict_set sc (fst e, fst (snd e))
       ((case dict_get sc (fst e, fst (snd e)) of None \<Rightarrow> 0 | Some s \<Rightarrow> s) + snd (snd e))"

definition aggregate_scores :: "CommunityCache \<Rightarrow> str list \<Rightarrow> (str \<times> str, real) dict" where
  "aggregate_scores cc qws = fold (\<lambda>keyword sc. fold add_score (keyword_index cc keyword) sc) qws []"

text \<open>
  The loop over the sorted matches: \<open>results\<close> and \<open>seen\<close> are the list of results and
  the collections seen so far (a set, kept as a list without repetitions).
\<close>

fun collect_results ::
  "CommunityCache \<Rightarrow> int \<Rightarrow> int \<Rightarrow> ((str \<times> str) \<times> real) list \<Rightarrow>
     scored_community list \<Rightarrow> str list \<Rightarrow> scored_community list" where
  "collect_results cc max_results max_communes [] results seen = results"
| "collect_results cc max_results max_communes (m # ms) results seen =
     (if int (length results) \<ge> max_results then results
      else if fst (fst m) \<in> set seen \<and> int (length seen) \<ge> max_communes
      then collect_results cc max_results max_communes ms results seen
      else
        (case get_community cc (fst (fst m)) (snd (fst m)) of
           None \<Rightarrow> collect_results cc max_results max_communes ms results seen
         | Some c \<Rightarrow>
             collect_results cc max_results max_communes ms
               (results @ [result_of c (snd m)])
               (if fst (fst m) \<in> set seen then seen else seen @ [fst (fst m)])))"

text \<open>
  \<^verbatim>\<open>search\<close>. \<^verbatim>\<open>sorted(..., reverse=True)\<close> is stable: communities of equal score
  come in the order in which the aggregation met them, as with \<open>sort_key\<close> on the negated
  score.
\<close>

definition search :: "interpreter \<Rightarrow> CommunityCache \<Rightarrow> str \<Rightarrow> int \<Rightarrow> int \<Rightarrow> scored_community list" where
  "search U cc query max_results max_communes =
     (let qws = query_words U query in
      if qws = [] then []
      else collect_results cc max_results max_communes
             (sort_key (\<lambda>m. - snd m) (aggregate_scores cc qws)) [] [])"

subsection \<open>Notions used to state the properties of the cache\<close>

text \<open>Iterating a set yields each of its elements once.\<close>

definition order_ok :: "interpreter \<Rightarrow> bool" where
  "order_ok U \<longleftrightarrow> (\<forall>xs. distinct (set_order U xs) \<and> set (set_order U xs) = set xs)"

text \<open>
  The report files as the file system and JSON give them: the collections have distinct
  names and the communities of a file distinct ids.
\<close>

definition files_ok :: "(str \<times> communities_file) list \<Rightarrow> bool" where
  "files_ok files \<longleftrightarrow>
     distinct (map fst files) \<and>
     (\<forall>f \<in> set files. case snd f of CommunitiesUnreadable \<Rightarrow> True
                                 | CommunitiesData d \<Rightarrow> distinct (map fst d))"

text \<open>The states of the cache: the empty cache, and what a refresh makes of a state.\<close>

inductive_set cache_states :: "interpreter \<Rightarrow> CommunityCache set" for U :: interpreter where
  created: "CommunityCache_init \<in> cache_states U"
| refreshed: "cc \<in> cache_states U \<Longrightarrow> files_ok files \<Longrightarrow> refresh_cache U files cc \<in> cache_states U"

text \<open>What the entries of a list add to the score of the community \<open>key\<close>.\<close>

definition key_sum :: "(str \<times> str \<times> real) list \<Rightarrow> str \<times> str \<Rightarrow> real" where
  "key_sum es key = (\<Sum>e \<leftarrow> es. if (fst e, fst (snd e)) = key then snd (snd e) else 0)"



text \<open>What a keyword adds to the score of a community with the given title and summary.\<close>

definition keyword_value :: "interpreter \<Rightarrow> community \<Rightarrow> str \<Rightarrow> real" where
  "keyword_value U c keyword =
     (if keyword \<in> set (keywords_of U (title c) (summary c))
      then total_score U (title c) (summary c) keyword else 0)"

text \<open>
  The invariant of the cache: every stored community records the ids it is stored under
  and has a rating for which \<^verbatim>\<open>rating < 4.0\<close> is false, every entry of the keyword index
  has a positive score, and the entries of a keyword for a community add up to what the
  keyword is worth in its title and summary, and to nothing when no such community is
  stored.
\<close>

definition cache_inv :: "interpreter \<Rightarrow> CommunityCache \<Rightarrow> bool" where
  "cache_inv U cc \<longleftrightarrow>
     (\<forall>cid m c. get_community cc cid m = Some c \<longrightarrow>
        commune_id c = cid \<and> community_id c = m \<and> \<not> num_less (rating c) 4) \<and>
     (\<forall>kw. \<forall>e \<in> set (keyword_index cc kw). 0 < snd (snd e)) \<and>
     (\<forall>kw cid m. key_sum (keyword_index cc kw) (cid, m) =
        (case get_community cc cid m of None \<Rightarrow> 0 | Some c \<Rightarrow> keyword_value U c kw))"







text \<open>
  A report file whose only community has the rating \<^verbatim>\<open>NaN\<close>, the cache loaded from it
  and the community it stores.
\<close>

definition reports_nan :: "(str \<times> communities_file) list" where
  "reports_nan =
     [(py_str ''c1'', CommunitiesData
        [(py_str ''m1'',
          \<lparr>cd_report = Some \<lparr>rj_rating = Some (RatingNumber PyNaN),
                             rj_title = py_str ''Budget local'',
                             rj_summary = py_str ''Rapport annuel''\<rparr>,
           cd_nodes = [], cd_chunk_ids = []\<rparr>)])]"

definition cache_nan :: CommunityCache where
  "cache_nan = refresh_cache latin1 reports_nan CommunityCache_init"

definition community_nan :: community where
  "community_nan = \<lparr>commune_id = py_str ''c1'', community_id = py_str ''m1'',
     title = py_str ''Budget local'', summary = py_str ''Rapport annuel'', rating = PyNaN,
     nodes = [], chunk_ids = []\<rparr>"

text \<open>An accented title: \<open>S\<close>, U+00E9, \<open>curit\<close>, U+00E9, a space and \<open>ROUTI\<close>, U+00C8, \<open>RE\<close>.\<close>

definition title_accents :: str where
  "title_accents = py_str ''S'' @ [233] @ py_str ''curit'' @ [233] @ py_str '' ROUTI'' @ [200] @ py_str ''RE''"

section \<open>The expansion loop terminates\<close>

lemma dict_set_absent: "\<not> dict_contains d k \<Longrightarrow> dict_set d k v = d @ [(k, v)]"
  by (induction d) (auto simp: dict_set_def dict_contains_def dict_keys_def)

lemma heap_min_in: "heap_min m es \<in> set (m # es)"
  by (induction es arbitrary: m) auto

lemma heappop_Some:
  assumes "heappop h = Some (e, h')"
  shows "e \<in> set h" "h' = remove1 e h" "length h' < length h" "set h' \<subseteq> set h"
proof -
  from assms obtain x xs where h: "h = x # xs" "e = heap_min x xs" "h' = remove1 e h"
    by (auto simp: heappop_def split: list.splits)
  show e: "e \<in> set h" using heap_min_in[of x xs] h by simp
  show "h' = remove1 e h" by (rule h(3))
  have "length (remove1 e h) = length h - 1" using e by (simp add: length_remove1)
  moreover have "0 < length h" by (simp add: h(1))
  ultimately show "length h' < length h" unfolding h(3) by simp
  show "set h' \<subseteq> set h" using h(3) set_remove1_subset by metis
qed

lemma heappop_None: "heappop h = None \<longleftrightarrow> h = []"
  by (simp add: heappop_def split: list.splits)

lemma get_neighbors_targets: "target ` set (get_neighbors idx x) \<subseteq> edge_targets idx"
proof (cases "dict_get (adjacency idx) x")
  case None then show ?thesis by (simp add: get_neighbors_def)
next
  case (Some es)
  then have "(x, es) \<in> set (adjacency idx)" by (simp add: dict_get_def map_of_SomeD)
  then show ?thesis using Some by (force simp: get_neighbors_def edge_targets_def)
qed

lemma fold_push_neighbor_ids:
  "entity_id ` set (fst (fold (push_neighbor idx cf ic vis x w d) es hc))
     \<subseteq> entity_id ` set (fst hc) \<union> (target ` set es - set (dict_keys vis))"
proof (induction es arbitrary: hc)
  case Nil then show ?case by simp
next
  case (Cons a es)
  have "entity_id ` set (fst (push_neighbor idx cf ic vis x w d a hc))
      \<subseteq> entity_id ` set (fst hc) \<union> ({target a} - set (dict_keys vis))"
    by (auto simp: push_neighbor_def heappush_def dict_contains_def)
  with Cons.IH[of "push_neighbor idx cf ic vis x w d a hc"] show ?case by auto
qed

lemma settle_visited:
  "visited (settle idx mh cf ic s e h) =
     (if dict_contains (visited s) (entity_id e) then visited s
      else visited s @ [(entity_id e, - neg_weight e)])"
  by (simp add: settle_def Let_def dict_set_absent)

lemma settle_heap_ids:
  "entity_id ` set (heap (settle idx mh cf ic s e h))
     \<subseteq> entity_id ` set h \<union> (edge_targets idx - set (dict_keys (visited s)) - {entity_id e})"
proof -
  let ?vis = "dict_set (visited s) (entity_id e) (- neg_weight e)"
  have k: "set (dict_keys ?vis) = insert (entity_id e) (set (dict_keys (visited s)))"
    by (auto simp: dict_set_def dict_keys_def AList.dom_update)
  have "entity_id ` set (fst (fold (push_neighbor idx cf ic ?vis (entity_id e) (- neg_weight e)
                (depth e)) (get_neighbors idx (entity_id e)) (h, next_counter s)))
      \<subseteq> entity_id ` set h \<union> (edge_targets idx - set (dict_keys ?vis))"
    using fold_push_neighbor_ids[of idx cf ic ?vis "entity_id e" "- neg_weight e" "depth e"
        "get_neighbors idx (entity_id e)" "(h, next_counter s)"]
      get_neighbors_targets[of idx "entity_id e"] by auto
  then show ?thesis unfolding k by (auto simp: settle_def Let_def)
qed

lemma ew_step_decreases:
  assumes "heap s \<noteq> []"
  shows "(ew_measure idx (ew_step idx mh cf ic s), ew_measure idx s) \<in> less_than <*lex*> less_than"
proof -
  from assms obtain e h where pop: "heappop (heap s) = Some (e, h)"
    by (cases "heappop (heap s)") (auto simp: heappop_None)
  note p = heappop_Some[OF pop]
  let ?s' = "settle idx mh cf ic s e h"
  let ?U = "\<lambda>t. (edge_targets idx \<union> entity_id ` set (heap t)) - set (dict_keys (visited t))"
  have step: "ew_step idx mh cf ic s = ?s'" by (simp add: ew_step_def pop)
  have fin: "finite (?U s)"
  proof -
    have "finite (edge_targets idx)" by (simp add: edge_targets_def)
    then show ?thesis by simp
  qed
  show ?thesis
  proof (cases "dict_contains (visited s) (entity_id e)")
    case True
    then have s': "?s' = s\<lparr>heap := h\<rparr>" by (simp add: settle_def)
    have "?U ?s' \<subseteq> ?U s" using p(4) by (auto simp: s')
    then have "card (?U ?s') \<le> card (?U s)" using fin by (rule card_mono[rotated])
    moreover have "length (heap ?s') < length (heap s)" using p(3) by (simp add: s')
    ultimately show ?thesis unfolding step ew_measure_def by auto
  next
    case False
    then have notin: "entity_id e \<notin> set (dict_keys (visited s))" by (simp add: dict_contains_def)
    have vis: "set (dict_keys (visited ?s')) = insert (entity_id e) (set (dict_keys (visited s)))"
      using False by (simp add: settle_visited dict_keys_def)
    have "entity_id ` set (heap ?s') \<subseteq> entity_id ` set (heap s) \<union> edge_targets idx"
      using settle_heap_ids[of idx mh cf ic s e h] p(4) by blast
    then have sub: "?U ?s' \<subseteq> ?U s - {entity_id e}" unfolding vis by blast
    have "entity_id e \<in> ?U s" using p(1) notin by blast
    then have "?U s - {entity_id e} \<subset> ?U s" by blast
    with sub have "?U ?s' \<subset> ?U s" by blast
    then have "card (?U ?s') < card (?U s)" using fin by (rule psubset_card_mono[rotated])
    then show ?thesis unfolding step ew_measure_def by auto
  qed
qed

function ew_loop ::
  "GraphIndex \<Rightarrow> int \<Rightarrow> int \<Rightarrow> string set option \<Rightarrow> bool \<Rightarrow> ew_state \<Rightarrow> ew_state" where
  "ew_loop idx max_hops max_results commune_filter include_chunks s =
     (if heap s \<noteq> [] \<and> int (length (visited s)) < max_results
      then ew_loop idx max_hops max_results commune_filter include_chunks
             (ew_step idx max_hops commune_filter include_chunks s)
      else s)"
  by pat_completeness auto
termination
proof (relation "inv_image (less_than <*lex*> less_than) (\<lambda>(idx, mh, mr, cf, ic, s). ew_measure idx s)")
  show "wf (inv_image (less_than <*lex*> less_than)
          (\<lambda>(idx, mh :: int, mr :: int, cf :: string set option, ic :: bool, s). ew_measure idx s))"
    by (intro wf_inv_image wf_lex_prod wf_less_than)
next
  fix idx max_hops max_results commune_filter include_chunks and s :: ew_state
  assume "heap s \<noteq> [] \<and> int (length (visited s)) < max_results"
  then show "((idx, max_hops, max_results, commune_filter, include_chunks,
               ew_step idx max_hops commune_filter include_chunks s),
              (idx, max_hops, max_results, commune_filter, include_chunks, s))
      \<in> inv_image (less_than <*lex*> less_than) (\<lambda>(idx, mh, mr, cf, ic, s). ew_measure idx s)"
    using ew_step_decreases[of s idx max_hops commune_filter include_chunks] by simp
qed

declare ew_loop.simps [simp del]

text \<open>
  The entity list: the visited ids that have metadata, in the order they were settled,
  then sorted by traversal weight, greatest first. \<^verbatim>\<open>list.sort\<close> is stable, also with
  \<^verbatim>\<open>reverse=True\<close>, and so is \<open>sort_key\<close> on the negated weight.
\<close>

definition entity_dict :: "GraphIndex \<Rightarrow> string \<times> real \<Rightarrow> entity_result list" where
  "entity_dict idx vw =
     (case get_entity idx (fst vw) of
        None \<Rightarrow> []
      | Some metadata \<Rightarrow>
          [\<lparr>r_id = fst vw, r_name = name metadata, r_type = entity_type metadata,
            r_description = description metadata, r_commune = commune metadata,
            traversal_weight = snd vw\<rparr>])"

definition ew_final ::
  "GraphIndex \<Rightarrow> string list \<Rightarrow> int \<Rightarrow> int \<Rightarrow> string set option \<Rightarrow> bool \<Rightarrow> ew_state" where
  "ew_final idx seed_entities max_hops max_results commune_filter include_chunks =
     ew_loop idx max_hops max_results commune_filter include_chunks (ew_init idx seed_entities)"

definition expand_weighted ::
  "GraphIndex \<Rightarrow> string list \<Rightarrow> int \<Rightarrow> int \<Rightarrow> string set option \<Rightarrow> bool \<Rightarrow>
     entity_result list \<times> path list" where
  "expand_weighted idx seed_entities max_hops max_results commune_filter include_chunks =
     (let s = ew_final idx seed_entities max_hops max_results commune_filter include_chunks
      in (sort_key (\<lambda>x. - traversal_weight x) (concat (map (entity_dict idx) (visited s))),
          paths s))"

subsection \<open>Notions used to state the properties of the expansion\<close>

text \<open>The seeds the seeding loop pushes.\<close>

definition known_seeds :: "GraphIndex \<Rightarrow> string list \<Rightarrow> string set" where
  "known_seeds idx seed_entities = {x \<in> set seed_entities. has_entity idx x}"

text \<open>An entry as the seeding loop pushes it.\<close>

definition seed_entry :: "GraphIndex \<Rightarrow> string list \<Rightarrow> heap_entry \<Rightarrow> bool" where
  "seed_entry idx seed_entities e \<longleftrightarrow>
     neg_weight e = 0 \<and> depth e = 0 \<and> came_from e = None \<and>
     entity_id e \<in> known_seeds idx seed_entities"

text \<open>
  What holds of every state of the loop when \<open>max_hops\<close> is 0: only seed entries are in
  the heap, every settled id is a known seed with weight 0, no path is recorded, and every
  known seed is settled or still in the heap.
\<close>

definition hop0_inv :: "GraphIndex \<Rightarrow> string list \<Rightarrow> ew_state \<Rightarrow> bool" where
  "hop0_inv idx seed_entities t \<longleftrightarrow>
     (\<forall>e \<in> set (heap t). seed_entry idx seed_entities e) \<and>
     (\<forall>xw \<in> set (visited t). snd xw = 0 \<and> fst xw \<in> known_seeds idx seed_entities) \<and>
     paths t = [] \<and>
     known_seeds idx seed_entities \<subseteq> set (dict_keys (visited t)) \<union> entity_id ` set (heap t) \<and>
     distinct (dict_keys (visited t))"

text \<open>
  No entry in the heap for a settled id carries a weight above the recorded one.
\<close>

definition heap_bounded :: "ew_state \<Rightarrow> bool" where
  "heap_bounded t \<longleftrightarrow>
     (\<forall>xw \<in> set (visited t). \<forall>e \<in> set (heap t).
        entity_id e = fst xw \<longrightarrow> - neg_weight e \<le> snd xw)"

text \<open>The ids of the returned entity list.\<close>

definition returned_ids ::
  "GraphIndex \<Rightarrow> string list \<Rightarrow> int \<Rightarrow> int \<Rightarrow> string set option \<Rightarrow> bool \<Rightarrow> string set" where
  "returned_ids idx seed_entities max_hops max_results commune_filter include_chunks =
     r_id ` set (fst (expand_weighted idx seed_entities max_hops max_results commune_filter
                        include_chunks))"

text \<open>The states the loop of one call goes through.\<close>

inductive_set ew_reachable ::
  "GraphIndex \<Rightarrow> string list \<Rightarrow> int \<Rightarrow> int \<Rightarrow> string set option \<Rightarrow> bool \<Rightarrow> ew_state set"
  for idx seed_entities max_hops max_results commune_filter include_chunks where
  init: "ew_init idx seed_entities
           \<in> ew_reachable idx seed_entities max_hops max_results commune_filter include_chunks"
| step: "s \<in> ew_reachable idx seed_entities max_hops max_results commune_filter include_chunks \<Longrightarrow>
         heap s \<noteq> [] \<Longrightarrow> int (length (visited s)) < max_results \<Longrightarrow>
         ew_step idx max_hops commune_filter include_chunks s
           \<in> ew_reachable idx seed_entities max_hops max_results commune_filter include_chunks"

text \<open>
  The cumulative traversal weight of a walk: from \<open>cur\<close> with weight \<open>w\<close> along the given
  edges, each of which must be in the adjacency list of the node it leaves; every edge
  adds its weight and the type bonus of its target, as the expansion does.
\<close>

fun walk_weight :: "GraphIndex \<Rightarrow> string \<Rightarrow> real \<Rightarrow> EdgeInfo list \<Rightarrow> (string \<times> real) option" where
  "walk_weight idx cur w [] = Some (cur, w)"
| "walk_weight idx cur w (e # es) =
     (if e \<in> set (get_neighbors idx cur)
      then walk_weight idx (target e) (w + weight e + type_bonus (get_entity idx (target e))) es
      else None)"

text \<open>
  The maximality C2 states: no walk of at most \<open>max_hops\<close> edges from a known seed
  reaches a settled id with a cumulative weight above the recorded one.
\<close>

definition settled_weights_maximal ::
  "GraphIndex \<Rightarrow> string list \<Rightarrow> int \<Rightarrow> int \<Rightarrow> string set option \<Rightarrow> bool \<Rightarrow> bool" where
  "settled_weights_maximal idx seed_entities max_hops max_results commune_filter include_chunks =
     (\<forall>x w seed es w'.
        dict_get (visited (ew_final idx seed_entities max_hops max_results commune_filter
                             include_chunks)) x = Some w \<and>
        seed \<in> known_seeds idx seed_entities \<and> int (length es) \<le> max_hops \<and>
        walk_weight idx seed 0 es = Some (x, w')
        \<longrightarrow> w' \<le> w)"

text \<open>
  An entity and its source chunk: the index the loader builds from the graph file
  \<open>graph_actor\<close> and the chunk store \<open>chunks_actor\<close>.
\<close>

definition entity_K :: EntityMetadata where
  "entity_K = \<lparr>name = ''CONTRIBUTION_0'', entity_type = ''CHUNK'', description = ''texte'',
     commune = ''c1'', node_id = ''K''\<rparr>"

definition idx_chunk :: GraphIndex where
  "idx_chunk = GraphIndex_init\<lparr>
     adjacency :=
       [(''A'', [mk_edge ''K'' ''HAS_SOURCE'' (9/10)]),
        (''K'', [mk_edge ''A'' ''SOURCED_BY'' (9/10)])],
     entities := [(''A'', mk_entity ''A'' ''ACTOR'' ''c1''), (''K'', entity_K)],
     name_index := [([65], ''A'')],
     chunks :=
       [(''K'', \<lparr>chunk_id = ''K'', content = Some ''texte'', tokens = 1, chunk_order_index = 0,
                  full_doc_id = ''doc'', chunk_commune = ''c1'', contribution_number = None,
                  contribution_type = None, demographic = None\<rparr>)],
     entity_source_ids := [(''A'', [''K''])],
     loaded_communes := {''c1''}, total_nodes := 1, total_chunks := 1\<rparr>"


text \<open>
  The state of the expansion from A in the triangle, two hops, after three iterations:
  A, B and C are settled and the first entry pushed for C is still in the heap.
\<close>

definition triangle_s3 :: ew_state where
  "triangle_s3 =
     ew_step idx_triangle 2 None True
       (ew_step idx_triangle 2 None True
          (ew_step idx_triangle 2 None True (ew_init idx_triangle [''A''])))"

subsection \<open>Runs of the loop over any priority queue\<close>

text \<open>
  \<^verbatim>\<open>heapq\<close> promises only that \<^verbatim>\<open>heappop\<close> returns a least entry. A run of the loop
  that may take, at every pop, any entry of the heap that no other entry is less than:
  \<open>ew_run\<close> relates a state to the states such runs can end in.
\<close>

inductive ew_run ::
  "GraphIndex \<Rightarrow> int \<Rightarrow> int \<Rightarrow> string set option \<Rightarrow> bool \<Rightarrow> ew_state \<Rightarrow> ew_state \<Rightarrow> bool"
  for idx max_hops max_results commune_filter include_chunks where
  stop: "\<not> (heap s \<noteq> [] \<and> int (length (visited s)) < max_results) \<Longrightarrow>
         ew_run idx max_hops max_results commune_filter include_chunks s s"
| pop: "heap s \<noteq> [] \<Longrightarrow> int (length (visited s)) < max_results \<Longrightarrow>
        e \<in> set (heap s) \<Longrightarrow> \<forall>e' \<in> set (heap s). \<not> entry_less e' e \<Longrightarrow>
        ew_run idx max_hops max_results commune_filter include_chunks
          (settle idx max_hops commune_filter include_chunks s e (remove1 e (heap s))) s' \<Longrightarrow>
        ew_run idx max_hops max_results commune_filter include_chunks s s'"

text \<open>The entities a call returns when its loop ends in the state \<open>s\<close>.\<close>

definition entities_of :: "GraphIndex \<Rightarrow> ew_state \<Rightarrow> entity_result list" where
  "entities_of idx s =
     sort_key (\<lambda>x. - traversal_weight x) (concat (map (entity_dict idx) (visited s)))"

text \<open>\<open>r\<close> is a result of a call: the entities and paths of the end state of a run.\<close>

definition expand_weighted_returns ::
  "GraphIndex \<Rightarrow> string list \<Rightarrow> int \<Rightarrow> int \<Rightarrow> string set option \<Rightarrow> bool \<Rightarrow>
     entity_result list \<times> path list \<Rightarrow> bool" where
  "expand_weighted_returns idx seed_entities max_hops max_results commune_filter include_chunks r =
     (\<exists>s. ew_run idx max_hops max_results commune_filter include_chunks
            (ew_init idx seed_entities) s \<and>
          r = (entities_of idx s, paths s))"

text \<open>The counters of the entries in the heap are distinct and below the next counter.\<close>

definition counters_fresh :: "ew_state \<Rightarrow> bool" where
  "counters_fresh s \<longleftrightarrow>
     distinct (map counter (heap s)) \<and> (\<forall>e \<in> set (heap s). counter e < next_counter s)"

section \<open>Lemmas on dictionaries\<close>

lemma dict_get_None_iff: "dict_get d k = None \<longleftrightarrow> \<not> dict_contains d k"
  by (simp add: dict_get_def dict_contains_def dict_keys_def map_of_eq_None_iff)

section \<open>Lookups of unknown ids\<close>

text \<open>
  C8. For every id that is not present in the index (neither in the entity map nor in
  the adjacency map, which is what \<^verbatim>\<open>has_entity\<close> tests), \<^verbatim>\<open>get_neighbors\<close> returns the
  empty list and \<^verbatim>\<open>get_entity\<close> returns \<^verbatim>\<open>None\<close>. Neither function has an error result.
\<close>

theorem unknown_id_lookups:
  assumes "\<not> has_entity idx eid"
  shows "get_neighbors idx eid = [] \<and> get_entity idx eid = None"
proof -
  from assms have a: "\<not> dict_contains (adjacency idx) eid"
    and e: "\<not> dict_contains (entities idx) eid"
    by (simp_all add: has_entity_def)
  from a have "dict_get (adjacency idx) eid = None" by (simp add: dict_get_None_iff)
  then have "get_neighbors idx eid = []" by (simp add: get_neighbors_def)
  moreover from e have "get_entity idx eid = None"
    by (simp add: get_entity_def dict_get_None_iff)
  ultimately show ?thesis by simp
qed

theorem unknown_id_lookups_witness:
  "\<not> has_entity idx_triangle ''Z'' \<and> get_neighbors idx_triangle ''Z'' = [] \<and>
   get_entity idx_triangle ''Z'' = None"
proof -
  have h: "\<not> has_entity idx_triangle ''Z''"
    by (simp add: has_entity_def dict_contains_def dict_keys_def idx_triangle_def)
  from unknown_id_lookups [OF h] h show ?thesis by simp
qed

section \<open>The caches: eviction and expiry\<close>

subsection \<open>Auxiliary facts\<close>

lemma min_by_in: "min_by f m xs \<in> set (m # xs)"
  by (induction xs arbitrary: m) auto

lemma min_by_le: "x \<in> set (m # xs) \<Longrightarrow> f (min_by f m xs) \<le> f x"
proof (induction xs arbitrary: m x)
  case Nil then show ?case by simp
next
  case (Cons y ys)
  let ?m' = "if f y < f m then y else m"
  have a: "f (min_by f ?m' ys) \<le> f ?m'" by (rule Cons.IH) simp
  show ?case
  proof (cases "x \<in> set ys")
    case True then show ?thesis using Cons.IH[of x ?m'] by simp
  next
    case False
    with Cons.prems have "x = m \<or> x = y" by auto
    then show ?thesis using a by (auto split: if_splits)
  qed
qed

lemma py_min_Inr:
  assumes "xs \<noteq> []"
  shows "\<exists>m. py_min f xs = Inr m \<and> m \<in> set xs \<and> (\<forall>x \<in> set xs. f m \<le> f x)"
proof -
  from assms obtain y ys where xs: "xs = y # ys" by (cases xs) auto
  then show ?thesis using min_by_in[of f y ys] min_by_le[of _ y ys f]
    by (auto simp: py_min_def)
qed

lemma dict_del_absent: "\<not> dict_contains d k \<Longrightarrow> dict_del d k = d"
  by (induction d) (auto simp: dict_del_def dict_contains_def dict_keys_def AList.delete_eq)

lemma dict_del_not_contains: "\<not> dict_contains (dict_del d k) k"
  by (auto simp add: dict_del_def dict_contains_def dict_keys_def AList.delete_eq)

lemma dict_del_distinct_set:
  assumes "distinct (dict_keys d)" "(k, v) \<in> set d"
  shows "set (dict_del d k) = set d - {(k, v)}"
  using assms by (induction d) (auto simp: dict_del_def dict_keys_def AList.delete_eq rev_image_eqI)

lemma dict_del_length:
  assumes "distinct (dict_keys d)" "dict_contains d k"
  shows "length (dict_del d k) + 1 = length d"
  using assms
proof (induction d)
  case Nil then show ?case by (simp add: dict_contains_def dict_keys_def)
next
  case (Cons e d)
  show ?case
  proof (cases "fst e = k")
    case True
    with Cons.prems have "\<not> dict_contains d k" by (auto simp: dict_contains_def dict_keys_def)
    then have "dict_del d k = d" by (rule dict_del_absent)
    then show ?thesis using True by (cases e) (simp add: dict_del_def AList.delete_eq)
  next
    case False
    with Cons.prems have "dict_contains d k" "distinct (dict_keys d)"
      by (auto simp: dict_contains_def dict_keys_def)
    then have "length (dict_del d k) + 1 = length d" by (rule Cons.IH[rotated])
    then show ?thesis using False by (cases e) (auto simp add: dict_del_def AList.delete_eq)
  qed
qed

lemma dict_del_filter: "dict_del d k = filter (\<lambda>e. fst e \<noteq> k) d"
  by (induction d) (auto simp: dict_del_def AList.delete_eq)

lemma dict_get_set_same: "dict_get (dict_set d k v) k = Some v"
  by (simp add: dict_get_def dict_set_def AList.update_conv)

lemma dict_contains_image: "dict_contains d k \<longleftrightarrow> k \<in> fst ` set d"
  by (simp add: dict_contains_def dict_keys_def)

lemma EmbeddingCache_put_at_capacity:
  assumes dist: "distinct (dict_keys (ec_cache c))"
    and ne: "ec_cache c \<noteq> []"
    and cap: "int (length (ec_cache c)) \<ge> ec_max_entries c"
  shows "\<exists>k v t. (k, v, t) \<in> set (ec_cache c) \<and>
           (\<forall>e \<in> set (ec_cache c). t \<le> entry_timestamp e) \<and>
           set (dict_del (ec_cache c) k) = set (ec_cache c) - {(k, v, t)} \<and>
           length (dict_del (ec_cache c) k) + 1 = length (ec_cache c) \<and>
           EmbeddingCache_put hash_text c now text emb =
             Inr (c\<lparr>ec_cache := dict_set (dict_del (ec_cache c) k) (hash_text text) (emb, now)\<rparr>)"
proof -
  from py_min_Inr[OF ne, of entry_timestamp] obtain m where
    m: "py_min entry_timestamp (ec_cache c) = Inr m" "m \<in> set (ec_cache c)"
       "\<forall>e \<in> set (ec_cache c). entry_timestamp m \<le> entry_timestamp e" by blast
  obtain k v t where mk: "m = (k, v, t)" by (cases m) auto
  have t: "entry_timestamp m = t" by (simp add: mk entry_timestamp_def)
  have c: "dict_contains (ec_cache c) k" using m(2) mk by (force simp: dict_contains_image)
  have "EmbeddingCache_put hash_text c now text emb =
      Inr (c\<lparr>ec_cache := dict_set (dict_del (ec_cache c) k) (hash_text text) (emb, now)\<rparr>)"
    using cap m(1) mk by (simp add: EmbeddingCache_put_def)
  moreover have "set (dict_del (ec_cache c) k) = set (ec_cache c) - {(k, v, t)}"
    using dist m(2) mk by (simp add: dict_del_distinct_set)
  moreover have "length (dict_del (ec_cache c) k) + 1 = length (ec_cache c)"
    using dist c by (rule dict_del_length)
  ultimately show ?thesis using m(2,3) mk t by metis
qed

lemma evict_keys_filter:
  assumes "set ks \<subseteq> fst ` set (llm_cache c)" "set ks \<subseteq> fst ` set (llm_timestamps c)"
    and "distinct ks"
  shows "evict_keys ks c =
     Inr (c\<lparr>llm_cache := filter (\<lambda>e. fst e \<notin> set ks) (llm_cache c),
            llm_timestamps := filter (\<lambda>e. fst e \<notin> set ks) (llm_timestamps c)\<rparr>)"
  using assms
proof (induction ks arbitrary: c)
  case Nil then show ?case by simp
next
  case (Cons k ks)
  let ?c = "c\<lparr>llm_cache := dict_del (llm_cache c) k,
               llm_timestamps := dict_del (llm_timestamps c) k\<rparr>"
  from Cons.prems have k: "dict_contains (llm_cache c) k" "dict_contains (llm_timestamps c) k"
    by (auto simp: dict_contains_image)
  from Cons.prems have sub: "set ks \<subseteq> fst ` set (llm_cache ?c)"
    "set ks \<subseteq> fst ` set (llm_timestamps ?c)" and d: "distinct ks"
    by (fastforce simp: dict_del_filter)+
  have "evict_keys (k # ks) c = evict_keys ks ?c" using k by (simp add: py_del_def)
  also have "\<dots> = Inr (?c\<lparr>llm_cache := filter (\<lambda>e. fst e \<notin> set ks) (llm_cache ?c),
            llm_timestamps := filter (\<lambda>e. fst e \<notin> set ks) (llm_timestamps ?c)\<rparr>)"
    using sub d by (rule Cons.IH)
  also have "\<dots> = Inr (c\<lparr>llm_cache := filter (\<lambda>e. fst e \<notin> set (k # ks)) (llm_cache c),
            llm_timestamps := filter (\<lambda>e. fst e \<notin> set (k # ks)) (llm_timestamps c)\<rparr>)"
    by (simp add: dict_del_filter conj_commute cong: conj_cong)
  finally show ?case .
qed

lemma sorted_keys_props:
  "set (sorted_keys ts) = fst ` set ts" "length (sorted_keys ts) = length ts"
  "distinct (dict_keys ts) \<Longrightarrow> distinct (sorted_keys ts)"
proof -
  show "set (sorted_keys ts) = fst ` set ts" by (simp add: sorted_keys_def)
  show "length (sorted_keys ts) = length ts" by (simp add: sorted_keys_def)
  assume "distinct (dict_keys ts)"
  then show "distinct (sorted_keys ts)"
    by (simp add: sorted_keys_def dict_keys_def distinct_map)
qed

lemma take_sorted_keys_oldest:
  assumes dist: "distinct (dict_keys ts)"
    and kt: "(k, t) \<in> set ts" "k \<in> set (take m (sorted_keys ts))"
    and kt': "(k', t') \<in> set ts" "k' \<notin> set (take m (sorted_keys ts))"
  shows "t \<le> t'"
proof -
  let ?S = "sort_key snd ts"
  have S: "take m ?S @ drop m ?S = ?S" by simp
  have "sorted (map snd ?S)" by simp
  then have "sorted (map snd (take m ?S) @ map snd (drop m ?S))"
    by (metis S map_append)
  then have le: "\<forall>x \<in> set (take m ?S). \<forall>y \<in> set (drop m ?S). snd x \<le> snd y"
    by (auto simp: sorted_append)
  have tk: "take m (sorted_keys ts) = map fst (take m ?S)" by (simp add: sorted_keys_def take_map)
  from kt(2) tk obtain t0 where t0: "(k, t0) \<in> set (take m ?S)" by force
  then have "(k, t0) \<in> set ts" by (metis in_set_takeD set_sort)
  with kt(1) dist have "t0 = t" by (metis dict_keys_def eq_key_imp_eq_value)
  from kt'(1) have "(k', t') \<in> set ?S" by simp
  then have "(k', t') \<in> set (take m ?S) \<or> (k', t') \<in> set (drop m ?S)"
    by (metis S Un_iff set_append)
  moreover have "(k', t') \<notin> set (take m ?S)" using kt'(2) tk by force
  ultimately have "(k', t') \<in> set (drop m ?S)" by blast
  with le t0 \<open>t0 = t\<close> show ?thesis by force
qed

lemma LLMResponseCacheSingleton_set_at_capacity:
  assumes dist: "distinct (dict_keys (llm_timestamps c))"
    and same: "set (dict_keys (llm_cache c)) = set (dict_keys (llm_timestamps c))"
    and cap: "int (length (llm_cache c)) \<ge> llm_max_entries c"
    and vs: "victims = take (length (llm_timestamps c) div 10) (sorted_keys (llm_timestamps c))"
  shows "LLMResponseCacheSingleton_set c now key v =
      Inr (c\<lparr>llm_cache := dict_set (filter (\<lambda>e. fst e \<notin> set victims) (llm_cache c)) key v,
             llm_timestamps :=
               dict_set (filter (\<lambda>e. fst e \<notin> set victims) (llm_timestamps c)) key now\<rparr>)"
    and "distinct victims" and "length victims = length (llm_timestamps c) div 10"
    and "set victims \<subseteq> set (dict_keys (llm_timestamps c))"
    and "\<forall>(k, t) \<in> set (llm_timestamps c). \<forall>(k', t') \<in> set (llm_timestamps c).
           k \<in> set victims \<and> k' \<notin> set victims \<longrightarrow> t \<le> t'"
proof -
  show dv: "distinct victims" using sorted_keys_props(3)[OF dist] by (simp add: vs)
  show "length victims = length (llm_timestamps c) div 10"
    by (simp add: vs sorted_keys_props(2))
  show sub: "set victims \<subseteq> set (dict_keys (llm_timestamps c))"
    using set_take_subset[of "length (llm_timestamps c) div 10" "sorted_keys (llm_timestamps c)"]
    by (simp add: vs sorted_keys_props(1) dict_keys_def)
  show "\<forall>(k, t) \<in> set (llm_timestamps c). \<forall>(k', t') \<in> set (llm_timestamps c).
           k \<in> set victims \<and> k' \<notin> set victims \<longrightarrow> t \<le> t'"
    using take_sorted_keys_oldest[OF dist] unfolding vs by blast
  have "evict_keys victims c =
     Inr (c\<lparr>llm_cache := filter (\<lambda>e. fst e \<notin> set victims) (llm_cache c),
            llm_timestamps := filter (\<lambda>e. fst e \<notin> set victims) (llm_timestamps c)\<rparr>)"
    using sub same dv by (intro evict_keys_filter) (auto simp: dict_keys_def)
  then show "LLMResponseCacheSingleton_set c now key v =
      Inr (c\<lparr>llm_cache := dict_set (filter (\<lambda>e. fst e \<notin> set victims) (llm_cache c)) key v,
             llm_timestamps :=
               dict_set (filter (\<lambda>e. fst e \<notin> set victims) (llm_timestamps c)) key now\<rparr>)"
    using cap by (simp add: LLMResponseCacheSingleton_set_def vs sorted_keys_props(2))
qed

lemma length_filter_not_in:
  assumes "distinct (map fst d)" "distinct ks" "set ks \<subseteq> fst ` set d"
  shows "length (filter (\<lambda>e. fst e \<notin> set ks) d) + length ks = length d"
proof -
  let ?in = "filter (\<lambda>e. fst e \<in> set ks) d"
  have "distinct (map fst ?in)" using assms(1) by (simp add: distinct_map_filter)
  moreover have "set (map fst ?in) = set ks" using assms(3) by force
  ultimately have "length (map fst ?in) = length ks"
    using assms(2) by (metis distinct_card)
  moreover have "length ?in + length (filter (\<lambda>e. \<not> fst e \<in> set ks) d) = length d"
    by (rule sum_length_filter_compl)
  ultimately show ?thesis by simp
qed

lemma key_of_inj: "inj key_of"
  by (rule injI) (metis key_of_def length_replicate)

subsection \<open>Eviction on a put at capacity\<close>

text \<open>
  C1 (amended). A \<^verbatim>\<open>put\<close> issued while the cache is at capacity evicts before it stores
  the new entry with the current time stamp, and what it evicts depends on the cache.
  \<^verbatim>\<open>EmbeddingCache.put\<close> on a non-empty cache at capacity evicts exactly one entry, an
  entry whose stored time stamp is the smallest, and then stores the new entry with the
  time stamp \<open>now\<close>. \<^verbatim>\<open>LLMResponseCacheSingleton.set\<close> at capacity, holding \<open>n\<close>
  entries, ten or more, evicts the \<open>n div 10\<close> entries with the smallest time stamps
  (the source's "Remove oldest 10\%"), and then stores the new entry with \<open>now\<close>.
  The dictionaries are well formed: keys are distinct, and the two dictionaries of the
  response cache have the same keys.
\<close>

theorem put_at_capacity_eviction:
  "(distinct (dict_keys (ec_cache ec)) \<and> ec_cache ec \<noteq> [] \<and>
      int (length (ec_cache ec)) \<ge> ec_max_entries ec \<longrightarrow>
    (\<exists>k v t. (k, v, t) \<in> set (ec_cache ec) \<and>
       (\<forall>e \<in> set (ec_cache ec). t \<le> entry_timestamp e) \<and>
       set (dict_del (ec_cache ec) k) = set (ec_cache ec) - {(k, v, t)} \<and>
       length (dict_del (ec_cache ec) k) + 1 = length (ec_cache ec) \<and>
       EmbeddingCache_put hash_text ec now text emb =
         Inr (ec\<lparr>ec_cache := dict_set (dict_del (ec_cache ec) k) (hash_text text) (emb, now)\<rparr>) \<and>
       dict_get (dict_set (dict_del (ec_cache ec) k) (hash_text text) (emb, now)) (hash_text text)
         = Some (emb, now)))
   \<and>
   (distinct (dict_keys (llm_timestamps lc)) \<and>
      set (dict_keys (llm_cache lc)) = set (dict_keys (llm_timestamps lc)) \<and>
      int (length (llm_cache lc)) \<ge> llm_max_entries lc \<and> 10 \<le> length (llm_timestamps lc) \<and>
      victims = take (length (llm_timestamps lc) div 10) (sorted_keys (llm_timestamps lc)) \<longrightarrow>
    LLMResponseCacheSingleton_set lc now key val =
      Inr (lc\<lparr>llm_cache := dict_set (filter (\<lambda>e. fst e \<notin> set victims) (llm_cache lc)) key val,
              llm_timestamps :=
                dict_set (filter (\<lambda>e. fst e \<notin> set victims) (llm_timestamps lc)) key now\<rparr>) \<and>
    distinct victims \<and> length victims = length (llm_timestamps lc) div 10 \<and>
    set victims \<subseteq> set (dict_keys (llm_timestamps lc)) \<and>
    (\<forall>(k, t) \<in> set (llm_timestamps lc). \<forall>(k', t') \<in> set (llm_timestamps lc).
       k \<in> set victims \<and> k' \<notin> set victims \<longrightarrow> t \<le> t'))"
proof (rule conjI; rule impI)
  assume a: "distinct (dict_keys (ec_cache ec)) \<and> ec_cache ec \<noteq> [] \<and>
      int (length (ec_cache ec)) \<ge> ec_max_entries ec"
  then show "\<exists>k v t. (k, v, t) \<in> set (ec_cache ec) \<and>
       (\<forall>e \<in> set (ec_cache ec). t \<le> entry_timestamp e) \<and>
       set (dict_del (ec_cache ec) k) = set (ec_cache ec) - {(k, v, t)} \<and>
       length (dict_del (ec_cache ec) k) + 1 = length (ec_cache ec) \<and>
       EmbeddingCache_put hash_text ec now text emb =
         Inr (ec\<lparr>ec_cache := dict_set (dict_del (ec_cache ec) k) (hash_text text) (emb, now)\<rparr>) \<and>
       dict_get (dict_set (dict_del (ec_cache ec) k) (hash_text text) (emb, now)) (hash_text text)
         = Some (emb, now)"
    using EmbeddingCache_put_at_capacity[of ec hash_text now "text" emb]
    by (simp add: dict_get_set_same)
next
  assume a: "distinct (dict_keys (llm_timestamps lc)) \<and>
      set (dict_keys (llm_cache lc)) = set (dict_keys (llm_timestamps lc)) \<and>
      int (length (llm_cache lc)) \<ge> llm_max_entries lc \<and> 10 \<le> length (llm_timestamps lc) \<and>
      victims = take (length (llm_timestamps lc) div 10) (sorted_keys (llm_timestamps lc))"
  then have d: "distinct (dict_keys (llm_timestamps lc))"
    and s: "set (dict_keys (llm_cache lc)) = set (dict_keys (llm_timestamps lc))"
    and c: "int (length (llm_cache lc)) \<ge> llm_max_entries lc"
    and v: "victims = take (length (llm_timestamps lc) div 10) (sorted_keys (llm_timestamps lc))"
    by simp_all
  from LLMResponseCacheSingleton_set_at_capacity[OF d s c v]
  show "LLMResponseCacheSingleton_set lc now key val =
      Inr (lc\<lparr>llm_cache := dict_set (filter (\<lambda>e. fst e \<notin> set victims) (llm_cache lc)) key val,
              llm_timestamps :=
                dict_set (filter (\<lambda>e. fst e \<notin> set victims) (llm_timestamps lc)) key now\<rparr>) \<and>
    distinct victims \<and> length victims = length (llm_timestamps lc) div 10 \<and>
    set victims \<subseteq> set (dict_keys (llm_timestamps lc)) \<and>
    (\<forall>(k, t) \<in> set (llm_timestamps lc). \<forall>(k', t') \<in> set (llm_timestamps lc).
       k \<in> set victims \<and> k' \<notin> set victims \<longrightarrow> t \<le> t')"
    by blast
qed

text \<open>
  The claim as stated fails on \<^verbatim>\<open>LLMResponseCacheSingleton.set\<close>: with the class's
  capacity of 1000 and 1000 entries stored (here under the keys \<open>key_of 0\<close>, ...,
  \<open>key_of 999\<close>), one more \<^verbatim>\<open>set\<close> of a new key leaves 901 entries: a hundred entries
  were evicted, not one.
\<close>

lemma llm_full_wf:
  "distinct (dict_keys (llm_timestamps llm_full))"
  "distinct (dict_keys (llm_cache llm_full))"
  "set (dict_keys (llm_cache llm_full)) = set (dict_keys (llm_timestamps llm_full))"
  "length (llm_cache llm_full) = 1000" "length (llm_timestamps llm_full) = 1000"
  "llm_max_entries llm_full = 1000"
  "\<not> dict_contains (llm_cache llm_full) ''new''"
proof -
  have inj: "inj_on key_of A" for A using key_of_inj by (rule inj_on_subset) simp
  show "distinct (dict_keys (llm_timestamps llm_full))"
    by (simp add: llm_full_def dict_keys_def comp_def distinct_map inj)
  show "distinct (dict_keys (llm_cache llm_full))"
    by (simp add: llm_full_def dict_keys_def comp_def distinct_map inj)
  show "set (dict_keys (llm_cache llm_full)) = set (dict_keys (llm_timestamps llm_full))"
    by (simp add: llm_full_def dict_keys_def comp_def)
  show "length (llm_cache llm_full) = 1000" "length (llm_timestamps llm_full) = 1000"
    by (simp_all add: llm_full_def)
  show "llm_max_entries llm_full = 1000"
    by (simp add: llm_full_def LLMResponseCacheSingleton_new_def)
  show "\<not> dict_contains (llm_cache llm_full) ''new''"
    by (auto simp add: llm_full_def dict_contains_def dict_keys_def key_of_def
        Cons_replicate_eq)
qed

theorem llm_set_evicts_a_tenth_counterexample:
  "length (llm_cache llm_full) = 1000 \<and> llm_max_entries llm_full = 1000 \<and>
   (case LLMResponseCacheSingleton_set llm_full 1000 ''new'' 0 of
      Inl e \<Rightarrow> 0 | Inr c' \<Rightarrow> length (llm_cache c')) = 901"
proof -
  define victims where
    "victims = take (length (llm_timestamps llm_full) div 10) (sorted_keys (llm_timestamps llm_full))"
  let ?rest = "filter (\<lambda>e. fst e \<notin> set victims) (llm_cache llm_full)"
  have cap: "int (length (llm_cache llm_full)) \<ge> llm_max_entries llm_full"
    by (simp add: llm_full_wf)
  note r = LLMResponseCacheSingleton_set_at_capacity[OF llm_full_wf(1) llm_full_wf(3) cap victims_def]
  have "length ?rest + length victims = length (llm_cache llm_full)"
    using llm_full_wf(2) r(2) r(4) llm_full_wf(3)
    by (intro length_filter_not_in) (auto simp: dict_keys_def)
  then have len: "length ?rest = 900" using r(3) by (simp add: llm_full_wf)
  have "\<not> dict_contains ?rest ''new''"
    using llm_full_wf(7) by (auto simp: dict_contains_def dict_keys_def)
  then have "length (dict_set ?rest ''new'' 0) = 901"
    using len by (simp add: dict_set_absent)
  then show ?thesis using r(1)[of 1000 "''new''" 0] by (simp add: llm_full_wf)
qed

theorem put_at_capacity_eviction_witness:
  "distinct (dict_keys (ec_cache ec_two)) \<and> ec_cache ec_two \<noteq> [] \<and>
   int (length (ec_cache ec_two)) \<ge> ec_max_entries ec_two \<and>
   EmbeddingCache_put id ec_two 20 ''c'' 7 =
     Inr (ec_two\<lparr>ec_cache := [(''a'', (1, 5)), (''c'', (7, 20))]\<rparr>) \<and>
   distinct (dict_keys (llm_timestamps llm_ten)) \<and>
   set (dict_keys (llm_cache llm_ten)) = set (dict_keys (llm_timestamps llm_ten)) \<and>
   int (length (llm_cache llm_ten)) \<ge> llm_max_entries llm_ten \<and>
   10 \<le> length (llm_timestamps llm_ten) \<and>
   take (length (llm_timestamps llm_ten) div 10) (sorted_keys (llm_timestamps llm_ten)) = [''k9''] \<and>
   map_sum id (\<lambda>c. dict_keys (llm_cache c)) (LLMResponseCacheSingleton_set llm_ten 20 ''x'' 7) =
     Inr [''k0'', ''k1'', ''k2'', ''k3'', ''k4'', ''k5'', ''k6'', ''k7'', ''k8'', ''x'']"
proof -
  have e: "distinct (dict_keys (ec_cache ec_two)) \<and> ec_cache ec_two \<noteq> [] \<and>
      int (length (ec_cache ec_two)) \<ge> ec_max_entries ec_two"
    by (simp add: ec_two_def dict_keys_def)
  have v: "take (length (llm_timestamps llm_ten) div 10) (sorted_keys (llm_timestamps llm_ten))
      = [''k9'']"
    by (simp add: llm_ten_def sorted_keys_def)
  have l: "distinct (dict_keys (llm_timestamps llm_ten)) \<and>
      set (dict_keys (llm_cache llm_ten)) = set (dict_keys (llm_timestamps llm_ten)) \<and>
      int (length (llm_cache llm_ten)) \<ge> llm_max_entries llm_ten \<and>
      10 \<le> length (llm_timestamps llm_ten)"
    by (simp add: llm_ten_def dict_keys_def)
  from put_at_capacity_eviction [of ec_two id 20 "''c''" 7 llm_ten "[''k9'']" "''x''" 7] e l v
  have "EmbeddingCache_put id ec_two 20 ''c'' 7 =
     Inr (ec_two\<lparr>ec_cache := [(''a'', (1, 5)), (''c'', (7, 20))]\<rparr>)"
    and "LLMResponseCacheSingleton_set llm_ten 20 ''x'' 7 =
      Inr (llm_ten\<lparr>llm_cache := dict_set (filter (\<lambda>e. fst e \<notin> set [''k9'']) (llm_cache llm_ten)) ''x'' 7,
              llm_timestamps :=
                dict_set (filter (\<lambda>e. fst e \<notin> set [''k9'']) (llm_timestamps llm_ten)) ''x'' 20\<rparr>)"
    by (auto simp: ec_two_def entry_timestamp_def dict_del_def dict_set_def AList.delete_eq)
  then show ?thesis using e l v
    by (simp add: llm_ten_def dict_keys_def dict_set_def)
qed

subsection \<open>Lazy expiry on get\<close>

text \<open>
  C7. In each cache that has a \<^verbatim>\<open>get\<close> (\<^verbatim>\<open>EmbeddingCache\<close>,
  \<^verbatim>\<open>LLMResponseCacheSingleton\<close>, \<^verbatim>\<open>GraphRAGCache\<close>), a \<^verbatim>\<open>get\<close> of a key whose entry
  is expired, that is whose stored time stamp lies more than the TTL before the time of the
  call (\<^verbatim>\<open>time.time() - timestamp > ttl\<close>), is a miss: it returns \<^verbatim>\<open>None\<close>, counts
  a miss, and the cache it leaves no longer holds the key.
\<close>

theorem get_expired_is_miss_and_removes:
  "(dict_get (ec_cache ec) (hash_text text) = Some (emb, t1) \<and>
      now - t1 > real_of_int (ec_ttl_seconds ec) \<longrightarrow>
    EmbeddingCache_get hash_text ec now text =
      (None, ec\<lparr>ec_cache := dict_del (ec_cache ec) (hash_text text),
                  ec_misses := ec_misses ec + 1\<rparr>) \<and>
    \<not> dict_contains (dict_del (ec_cache ec) (hash_text text)) (hash_text text))
   \<and>
   (dict_get (llm_cache lc) key = Some v \<and> dict_get (llm_timestamps lc) key = Some t2 \<and>
      now - t2 > real_of_int (llm_ttl_seconds lc) \<longrightarrow>
    LLMResponseCacheSingleton_get lc now key =
      Inr (None, lc\<lparr>llm_cache := dict_del (llm_cache lc) key,
                      llm_timestamps := dict_del (llm_timestamps lc) key,
                      llm_misses := llm_misses lc + 1\<rparr>) \<and>
    \<not> dict_contains (dict_del (llm_cache lc) key) key \<and>
    \<not> dict_contains (dict_del (llm_timestamps lc) key) key)
   \<and>
   (dict_get (gc_cache gc) working_dir = Some (inst, t3) \<and>
      now - t3 > real_of_int (gc_ttl_seconds gc) \<longrightarrow>
    GraphRAGCache_get gc now working_dir =
      (None, gc\<lparr>gc_cache := dict_del (gc_cache gc) working_dir,
                  gc_misses := gc_misses gc + 1\<rparr>) \<and>
    \<not> dict_contains (dict_del (gc_cache gc) working_dir) working_dir)"
proof (intro conjI impI)
  assume "dict_get (ec_cache ec) (hash_text text) = Some (emb, t1) \<and>
      now - t1 > real_of_int (ec_ttl_seconds ec)"
  then show "EmbeddingCache_get hash_text ec now text =
      (None, ec\<lparr>ec_cache := dict_del (ec_cache ec) (hash_text text),
                  ec_misses := ec_misses ec + 1\<rparr>)"
    by (simp add: EmbeddingCache_get_def)
next
  assume a: "dict_get (llm_cache lc) key = Some v \<and> dict_get (llm_timestamps lc) key = Some t2 \<and>
      now - t2 > real_of_int (llm_ttl_seconds lc)"
  then have "dict_contains (llm_timestamps lc) key"
    using dict_get_None_iff[of "llm_timestamps lc" key] by auto
  with a show "LLMResponseCacheSingleton_get lc now key =
      Inr (None, lc\<lparr>llm_cache := dict_del (llm_cache lc) key,
                      llm_timestamps := dict_del (llm_timestamps lc) key,
                      llm_misses := llm_misses lc + 1\<rparr>)"
    by (simp add: LLMResponseCacheSingleton_get_def py_del_def)
next
  assume "dict_get (gc_cache gc) working_dir = Some (inst, t3) \<and>
      now - t3 > real_of_int (gc_ttl_seconds gc)"
  then show "GraphRAGCache_get gc now working_dir =
      (None, gc\<lparr>gc_cache := dict_del (gc_cache gc) working_dir,
                  gc_misses := gc_misses gc + 1\<rparr>)"
    by (simp add: GraphRAGCache_get_def)
qed (rule dict_del_not_contains)+

theorem get_expired_is_miss_and_removes_witness:
  "EmbeddingCache_get id ec_two 14 ''b'' =
     (None, ec_two\<lparr>ec_cache := [(''a'', (1, 5))], ec_misses := 1\<rparr>) \<and>
   LLMResponseCacheSingleton_get llm_two 14 ''b'' =
     Inr (None, llm_two\<lparr>llm_cache := [(''a'', 1)], llm_timestamps := [(''a'', 5)],
                         llm_misses := 1\<rparr>) \<and>
   GraphRAGCache_get gc_two 14 ''b'' =
     (None, gc_two\<lparr>gc_cache := [(''a'', (1, 5))], gc_misses := 1\<rparr>)"
  using get_expired_is_miss_and_removes [of ec_two id "''b''" 2 3 14 llm_two "''b''" 2 3
      gc_two "''b''" 2 3]
  by (simp add: ec_two_def llm_two_def gc_two_def LLMResponseCacheSingleton_new_def
      dict_get_def dict_del_def AList.delete_eq)

section \<open>Properties of the weighted expansion\<close>

subsection \<open>An invariant rule for the loop\<close>

lemma ew_loop_rule:
  assumes "I s"
    and "\<And>t. I t \<Longrightarrow> heap t \<noteq> [] \<Longrightarrow> int (length (visited t)) < mr \<Longrightarrow> I (ew_step idx mh cf ic t)"
  shows "I (ew_loop idx mh mr cf ic s) \<and>
         (heap (ew_loop idx mh mr cf ic s) = [] \<or>
          mr \<le> int (length (visited (ew_loop idx mh mr cf ic s))))"
  using assms
proof (induction idx mh mr cf ic s rule: ew_loop.induct)
  case (1 idx mh mr cf ic s)
  show ?case
  proof (cases "heap s \<noteq> [] \<and> int (length (visited s)) < mr")
    case True
    then have "I (ew_step idx mh cf ic s)" using "1.prems" by blast
    then show ?thesis using "1.IH"[OF True] "1.prems"(2) True
      by (subst (1 2 3) ew_loop.simps) simp
  next
    case False
    then show ?thesis using "1.prems"(1) by (subst (1 2 3) ew_loop.simps) auto
  qed
qed

subsection \<open>The seeding loop\<close>

lemma push_seed_props:
  "visited (push_seed idx x s) = visited s"
  "paths (push_seed idx x s) = paths s"
  "entity_id ` set (heap (push_seed idx x s))
     = entity_id ` set (heap s) \<union> known_seeds idx [x]"
proof -
  show "visited (push_seed idx x s) = visited s" "paths (push_seed idx x s) = paths s"
    by (simp_all add: push_seed_def)
  have "known_seeds idx [x] = (if has_entity idx x then {x} else {})"
    by (auto simp: known_seeds_def)
  then show "entity_id ` set (heap (push_seed idx x s))
     = entity_id ` set (heap s) \<union> known_seeds idx [x]"
    by (simp add: push_seed_def heappush_def)
qed

lemma known_seeds_Cons: "known_seeds idx (x # xs) = known_seeds idx [x] \<union> known_seeds idx xs"
  by (auto simp: known_seeds_def)

lemma fold_push_seed:
  "visited (fold (push_seed idx) xs s) = visited s"
  "paths (fold (push_seed idx) xs s) = paths s"
  "entity_id ` set (heap (fold (push_seed idx) xs s))
     = entity_id ` set (heap s) \<union> known_seeds idx xs"
proof (induction xs arbitrary: s)
  case Nil
  { case 1 show ?case by simp }
  { case 2 show ?case by simp }
  { case 3 show ?case by (simp add: known_seeds_def) }
next
  case (Cons x xs)
  { case 1 show ?case by (simp add: Cons.IH push_seed_props) }
  { case 2 show ?case by (simp add: Cons.IH push_seed_props) }
  { case 3 show ?case
      by (simp add: Cons.IH push_seed_props known_seeds_Cons[of idx x xs] Un_assoc) }
qed

lemma push_seed_entries:
  assumes "\<forall>e \<in> set (heap s). seed_entry idx seeds e" "x \<in> set seeds"
  shows "\<forall>e \<in> set (heap (push_seed idx x s)). seed_entry idx seeds e"
  using assms by (simp add: push_seed_def heappush_def known_seeds_def seed_entry_def)

lemma fold_push_seed_entries:
  assumes "\<forall>e \<in> set (heap s). seed_entry idx seeds e" "set xs \<subseteq> set seeds"
  shows "\<forall>e \<in> set (heap (fold (push_seed idx) xs s)). seed_entry idx seeds e"
  using assms
proof (induction xs arbitrary: s)
  case Nil then show ?case by simp
next
  case (Cons x xs)
  from Cons.prems have "\<forall>e \<in> set (heap (push_seed idx x s)). seed_entry idx seeds e"
    by (intro push_seed_entries) simp_all
  then show ?case using Cons.prems(2) Cons.IH[of "push_seed idx x s"] by simp
qed

lemma ew_init_props:
  "visited (ew_init idx seeds) = []" "paths (ew_init idx seeds) = []"
  "entity_id ` set (heap (ew_init idx seeds)) = known_seeds idx seeds"
  "\<forall>e \<in> set (heap (ew_init idx seeds)). seed_entry idx seeds e"
proof -
  show "visited (ew_init idx seeds) = []" "paths (ew_init idx seeds) = []"
    "entity_id ` set (heap (ew_init idx seeds)) = known_seeds idx seeds"
    by (simp_all add: ew_init_def fold_push_seed)
  show "\<forall>e \<in> set (heap (ew_init idx seeds)). seed_entry idx seeds e"
    unfolding ew_init_def by (rule fold_push_seed_entries) simp_all
qed

subsection \<open>One iteration\<close>

lemma ew_step_pop:
  assumes "heap s \<noteq> []"
  obtains e h where "heappop (heap s) = Some (e, h)" "e \<in> set (heap s)" "h = remove1 e (heap s)"
    "ew_step idx mh cf ic s = settle idx mh cf ic s e h"
proof -
  from assms obtain e h where pop: "heappop (heap s) = Some (e, h)"
    by (cases "heappop (heap s)") (auto simp: heappop_None)
  from heappop_Some[OF pop] pop show ?thesis by (intro that[of e h]) (simp_all add: ew_step_def)
qed

lemma fold_push_neighbor_mono:
  "set (fst hc) \<subseteq> set (fst (fold (push_neighbor idx cf ic vis x w d) es hc))"
proof (induction es arbitrary: hc)
  case Nil then show ?case by simp
next
  case (Cons a es)
  have "set (fst hc) \<subseteq> set (fst (push_neighbor idx cf ic vis x w d a hc))"
    by (auto simp: push_neighbor_def heappush_def)
  with Cons.IH[of "push_neighbor idx cf ic vis x w d a hc"] show ?case by auto
qed

lemma settle_heap_mono: "set h \<subseteq> set (heap (settle idx mh cf ic s e h))"
  using fold_push_neighbor_mono[of "(h, next_counter s)"]
  by (auto simp: settle_def Let_def)

lemma settle_no_expand:
  assumes "mh \<le> depth e"
  shows "heap (settle idx mh cf ic s e h) = h"
  using assms by (simp add: settle_def Let_def)

lemma settle_paths_seed:
  assumes "came_from e = None"
  shows "paths (settle idx mh cf ic s e h) = paths s"
  using assms by (simp add: settle_def Let_def)

lemma settle_visited_keys:
  "set (dict_keys (visited (settle idx mh cf ic s e h)))
     = insert (entity_id e) (set (dict_keys (visited s)))"
  by (auto simp: settle_visited dict_keys_def dict_contains_def)

lemma settle_visited_distinct:
  "distinct (dict_keys (visited s)) \<Longrightarrow> distinct (dict_keys (visited (settle idx mh cf ic s e h)))"
  by (auto simp: settle_visited dict_keys_def dict_contains_def)


subsection \<open>The returned entity list\<close>

lemma entity_dict_mem:
  "r \<in> set (entity_dict idx vw) \<longleftrightarrow>
     (\<exists>m. get_entity idx (fst vw) = Some m \<and>
        r = \<lparr>r_id = fst vw, r_name = name m, r_type = entity_type m,
             r_description = description m, r_commune = commune m,
             traversal_weight = snd vw\<rparr>)"
  by (cases "get_entity idx (fst vw)") (auto simp: entity_dict_def)

lemma entity_dict_set:
  "r \<in> set (concat (map (entity_dict idx) vis)) \<longleftrightarrow>
     (\<exists>x w m. (x, w) \<in> set vis \<and> get_entity idx x = Some m \<and>
        r = \<lparr>r_id = x, r_name = name m, r_type = entity_type m, r_description = description m,
             r_commune = commune m, traversal_weight = w\<rparr>)"
proof
  assume "r \<in> set (concat (map (entity_dict idx) vis))"
  then obtain x w where "(x, w) \<in> set vis" "r \<in> set (entity_dict idx (x, w))" by auto
  then show "\<exists>x w m. (x, w) \<in> set vis \<and> get_entity idx x = Some m \<and>
        r = \<lparr>r_id = x, r_name = name m, r_type = entity_type m, r_description = description m,
             r_commune = commune m, traversal_weight = w\<rparr>"
    unfolding entity_dict_mem fst_conv snd_conv by blast
next
  assume "\<exists>x w m. (x, w) \<in> set vis \<and> get_entity idx x = Some m \<and>
        r = \<lparr>r_id = x, r_name = name m, r_type = entity_type m, r_description = description m,
             r_commune = commune m, traversal_weight = w\<rparr>"
  then obtain x w m where "(x, w) \<in> set vis" "get_entity idx x = Some m"
    "r = \<lparr>r_id = x, r_name = name m, r_type = entity_type m, r_description = description m,
             r_commune = commune m, traversal_weight = w\<rparr>" by blast
  then have "(x, w) \<in> set vis" "r \<in> set (entity_dict idx (x, w))"
    by (simp_all add: entity_dict_mem)
  then show "r \<in> set (concat (map (entity_dict idx) vis))" by (simp only: set_concat set_map) blast
qed

lemma expand_weighted_set:
  "set (fst (expand_weighted idx seeds mh mr cf ic))
     = set (concat (map (entity_dict idx) (visited (ew_final idx seeds mh mr cf ic))))"
  by (simp add: expand_weighted_def Let_def)

lemma expand_weighted_entities:
  "r \<in> set (fst (expand_weighted idx seeds mh mr cf ic)) \<longleftrightarrow>
     (\<exists>x w m. (x, w) \<in> set (visited (ew_final idx seeds mh mr cf ic)) \<and>
        get_entity idx x = Some m \<and>
        r = \<lparr>r_id = x, r_name = name m, r_type = entity_type m, r_description = description m,
             r_commune = commune m, traversal_weight = w\<rparr>)"
  unfolding expand_weighted_set by (rule entity_dict_set)

lemma entity_dict_ids:
  "map r_id (concat (map (entity_dict idx) vis))
     = filter (\<lambda>x. get_entity idx x \<noteq> None) (map fst vis)"
  by (induction vis) (auto simp: entity_dict_def split: option.splits)

lemma expand_weighted_distinct:
  assumes "distinct (dict_keys (visited (ew_final idx seeds mh mr cf ic)))"
  shows "distinct (map r_id (fst (expand_weighted idx seeds mh mr cf ic)))"
proof -
  let ?xs = "concat (map (entity_dict idx) (visited (ew_final idx seeds mh mr cf ic)))"
  have "distinct (map r_id ?xs)" using assms by (simp add: entity_dict_ids dict_keys_def)
  then have "distinct ?xs \<and> inj_on r_id (set ?xs)" by (simp add: distinct_map)
  then have "distinct (map r_id (sort_key (\<lambda>x. - traversal_weight x) ?xs))"
    by (simp add: distinct_map)
  then show ?thesis by (simp add: expand_weighted_def Let_def)
qed

lemma returned_ids_eq:
  "returned_ids idx seeds mh mr cf ic =
     {x \<in> set (dict_keys (visited (ew_final idx seeds mh mr cf ic))). get_entity idx x \<noteq> None}"
  unfolding returned_ids_def
proof (intro set_eqI iffI)
  fix x assume "x \<in> r_id ` set (fst (expand_weighted idx seeds mh mr cf ic))"
  then obtain r where "r \<in> set (fst (expand_weighted idx seeds mh mr cf ic))" "x = r_id r" by blast
  then show "x \<in> {x \<in> set (dict_keys (visited (ew_final idx seeds mh mr cf ic))).
      get_entity idx x \<noteq> None}"
    by (force simp: expand_weighted_entities dict_keys_def)
next
  fix x assume "x \<in> {x \<in> set (dict_keys (visited (ew_final idx seeds mh mr cf ic))).
      get_entity idx x \<noteq> None}"
  then obtain w m where xw: "(x, w) \<in> set (visited (ew_final idx seeds mh mr cf ic))"
    and m: "get_entity idx x = Some m" by (auto simp: dict_keys_def)
  let ?r = "\<lparr>r_id = x, r_name = name m, r_type = entity_type m, r_description = description m,
             r_commune = commune m, traversal_weight = w\<rparr>"
  have "?r \<in> set (fst (expand_weighted idx seeds mh mr cf ic))"
    using xw m by (subst expand_weighted_entities) blast
  then show "x \<in> r_id ` set (fst (expand_weighted idx seeds mh mr cf ic))" by force
qed

lemma get_entity_has_entity: "get_entity idx x = Some m \<Longrightarrow> has_entity idx x"
  using dict_get_None_iff[of "entities idx" x] by (auto simp: get_entity_def has_entity_def)

subsection \<open>Expansion with no hops\<close>

lemma hop0_inv_init: "hop0_inv idx seeds (ew_init idx seeds)"
  by (simp add: hop0_inv_def ew_init_props dict_keys_def)

lemma hop0_inv_step:
  assumes inv: "hop0_inv idx seeds t" and ne: "heap t \<noteq> []"
  shows "hop0_inv idx seeds (ew_step idx 0 cf ic t)"
proof -
  from ne obtain e h where e: "e \<in> set (heap t)" and h: "h = remove1 e (heap t)"
    and step: "ew_step idx 0 cf ic t = settle idx 0 cf ic t e h"
    by (rule ew_step_pop)
  let ?t' = "settle idx 0 cf ic t e h"
  from inv e have se: "seed_entry idx seeds e" by (simp add: hop0_inv_def)
  then have d: "0 \<le> depth e" and c: "came_from e = None" and w: "neg_weight e = 0"
    and k: "entity_id e \<in> known_seeds idx seeds" by (simp_all add: seed_entry_def)
  have heap': "heap ?t' = h" using d by (rule settle_no_expand)
  have sub: "set h \<subseteq> set (heap t)" unfolding h by (rule set_remove1_subset)
  have 1: "\<forall>e \<in> set (heap ?t'). seed_entry idx seeds e"
    using inv sub by (auto simp: heap' hop0_inv_def)
  have 2: "\<forall>xw \<in> set (visited ?t'). snd xw = 0 \<and> fst xw \<in> known_seeds idx seeds"
    using inv w k by (auto simp: settle_visited hop0_inv_def)
  have 3: "paths ?t' = []" using inv c by (simp add: settle_paths_seed hop0_inv_def)
  have 4: "known_seeds idx seeds \<subseteq> set (dict_keys (visited ?t')) \<union> entity_id ` set (heap ?t')"
  proof
    fix x assume "x \<in> known_seeds idx seeds"
    with inv have "x \<in> set (dict_keys (visited t)) \<or> x \<in> entity_id ` set (heap t)"
      by (auto simp: hop0_inv_def)
    then show "x \<in> set (dict_keys (visited ?t')) \<union> entity_id ` set (heap ?t')"
    proof
      assume "x \<in> set (dict_keys (visited t))"
      then show ?thesis by (simp add: settle_visited_keys)
    next
      assume "x \<in> entity_id ` set (heap t)"
      then obtain e' where e': "e' \<in> set (heap t)" "x = entity_id e'" by blast
      show ?thesis
      proof (cases "e' = e")
        case True then show ?thesis using e' by (simp add: settle_visited_keys)
      next
        case False
        then have "e' \<in> set h" using e'(1) by (simp add: h)
        then show ?thesis using e'(2) by (simp add: heap')
      qed
    qed
  qed
  have 5: "distinct (dict_keys (visited ?t'))"
    using inv by (intro settle_visited_distinct) (simp add: hop0_inv_def)
  show ?thesis unfolding step hop0_inv_def using 1 2 3 4 5 by blast
qed

lemma hop0_final:
  "hop0_inv idx seeds (ew_final idx seeds 0 mr cf ic) \<and>
   (heap (ew_final idx seeds 0 mr cf ic) = [] \<or>
    mr \<le> int (length (visited (ew_final idx seeds 0 mr cf ic))))"
  unfolding ew_final_def
  by (rule ew_loop_rule[where I = "hop0_inv idx seeds"]) (simp_all add: hop0_inv_init hop0_inv_step)

lemma hop0_visited_keys:
  assumes "int (card (known_seeds idx seeds)) \<le> mr"
  shows "set (dict_keys (visited (ew_final idx seeds 0 mr cf ic))) = known_seeds idx seeds"
proof -
  let ?V = "set (dict_keys (visited (ew_final idx seeds 0 mr cf ic)))"
  let ?K = "known_seeds idx seeds"
  note f = hop0_final[of idx seeds mr cf ic]
  then have inv: "hop0_inv idx seeds (ew_final idx seeds 0 mr cf ic)" by simp
  have fin: "finite ?K" by (simp add: known_seeds_def)
  have sub: "?V \<subseteq> ?K" using inv by (auto simp: hop0_inv_def dict_keys_def)
  from f have "heap (ew_final idx seeds 0 mr cf ic) = [] \<or>
    mr \<le> int (length (visited (ew_final idx seeds 0 mr cf ic)))" by simp
  then show ?thesis
  proof
    assume "heap (ew_final idx seeds 0 mr cf ic) = []"
    then have "?K \<subseteq> ?V" using inv by (simp add: hop0_inv_def)
    with sub show ?thesis by blast
  next
    assume "mr \<le> int (length (visited (ew_final idx seeds 0 mr cf ic)))"
    moreover have "card ?V = length (visited (ew_final idx seeds 0 mr cf ic))"
      using inv distinct_card[of "dict_keys (visited (ew_final idx seeds 0 mr cf ic))"]
      by (simp add: hop0_inv_def dict_keys_def)
    ultimately have "card ?K \<le> card ?V" using assms by linarith
    with fin sub show ?thesis by (rule card_seteq)
  qed
qed

text \<open>
  C4 (amended). With \<open>max_hops = 0\<close> and \<open>max_results\<close> at least the number of distinct
  seeds known to the index (those \<^verbatim>\<open>has_entity\<close> accepts), \<^verbatim>\<open>expand_weighted\<close> returns
  exactly the seeds that have entity metadata, each once and with traversal weight 0, and
  an empty path list.
\<close>

theorem expand_weighted_zero_hops:
  assumes "int (card (known_seeds idx seed_entities)) \<le> max_results"
  shows "returned_ids idx seed_entities 0 max_results commune_filter include_chunks
           = {x \<in> set seed_entities. get_entity idx x \<noteq> None} \<and>
         distinct (map r_id (fst (expand_weighted idx seed_entities 0 max_results commune_filter
                                    include_chunks))) \<and>
         (\<forall>r \<in> set (fst (expand_weighted idx seed_entities 0 max_results commune_filter
                            include_chunks)). traversal_weight r = 0) \<and>
         snd (expand_weighted idx seed_entities 0 max_results commune_filter include_chunks) = []"
proof -
  let ?s = "ew_final idx seed_entities 0 max_results commune_filter include_chunks"
  have inv: "hop0_inv idx seed_entities ?s" using hop0_final by blast
  have keys: "set (dict_keys (visited ?s)) = known_seeds idx seed_entities"
    using assms by (rule hop0_visited_keys)
  have "returned_ids idx seed_entities 0 max_results commune_filter include_chunks
           = {x \<in> set seed_entities. get_entity idx x \<noteq> None}"
    unfolding returned_ids_eq keys using get_entity_has_entity[of idx]
    by (auto simp: known_seeds_def)
  moreover have "\<forall>r \<in> set (fst (expand_weighted idx seed_entities 0 max_results commune_filter
                            include_chunks)). traversal_weight r = 0"
    using inv by (fastforce simp: expand_weighted_entities hop0_inv_def)
  moreover have "snd (expand_weighted idx seed_entities 0 max_results commune_filter
      include_chunks) = []"
    using inv by (simp add: expand_weighted_def Let_def hop0_inv_def)
  moreover have "distinct (map r_id (fst (expand_weighted idx seed_entities 0 max_results
      commune_filter include_chunks)))"
    using inv by (intro expand_weighted_distinct) (simp add: hop0_inv_def)
  ultimately show ?thesis by blast
qed


text \<open>The equations that evaluate an expansion on a concrete index.\<close>

lemmas ew_eval =
  ew_final_def ew_init_def push_seed_def has_entity_def dict_contains_def dict_keys_def
  GraphIndex_init_def heappush_def ew_loop.simps ew_step_def heappop_def entry_less_def
  settle_def Let_def dict_set_def get_neighbors_def dict_get_def mk_edge_def mk_entity_def
  push_neighbor_def get_entity_def is_chunk_def filter_excludes_def type_bonus_def
  ENTITY_TYPE_PRIORITY_def

lemma known_seeds_filter: "known_seeds idx seeds = set (filter (has_entity idx) seeds)"
  by (auto simp: known_seeds_def)

theorem expand_weighted_zero_hops_witness:
  "int (card (known_seeds idx_triangle [''A'', ''Z'', ''B''])) \<le> 200 \<and>
   returned_ids idx_triangle [''A'', ''Z'', ''B''] 0 200 None True = {''A'', ''B''} \<and>
   snd (expand_weighted idx_triangle [''A'', ''Z'', ''B''] 0 200 None True) = []"
proof -
  have k: "known_seeds idx_triangle [''A'', ''Z'', ''B''] = {''A'', ''B''}"
    by (simp add: known_seeds_filter has_entity_def dict_contains_def dict_keys_def idx_triangle_def)
  have h: "int (card (known_seeds idx_triangle [''A'', ''Z'', ''B''])) \<le> 200"
    by (simp add: k)
  have g: "{x \<in> set [''A'', ''Z'', ''B'']. get_entity idx_triangle x \<noteq> None} = {''A'', ''B''}"
    by (auto simp: get_entity_def dict_get_def idx_triangle_def)
  from expand_weighted_zero_hops [OF h, of None True]
  have "returned_ids idx_triangle [''A'', ''Z'', ''B''] 0 200 None True
          = {x \<in> set [''A'', ''Z'', ''B'']. get_entity idx_triangle x \<noteq> None}"
    and "snd (expand_weighted idx_triangle [''A'', ''Z'', ''B''] 0 200 None True) = []"
    by blast+
  then show ?thesis using h unfolding g by blast
qed

text \<open>
  The claim as stated fails when \<open>max_results\<close> is smaller than the number of known seeds:
  the loop stops at \<^verbatim>\<open>len(visited) >= max_results\<close>. Seeds A and B of the triangle,
  \<open>max_hops = 0\<close>, \<open>max_results = 1\<close>: only A is returned.
\<close>

theorem zero_hops_truncated_counterexample:
  "known_seeds idx_triangle [''A'', ''B''] = {''A'', ''B''} \<and>
   returned_ids idx_triangle [''A'', ''B''] 0 1 None True = {''A''}"
proof -
  have "known_seeds idx_triangle [''A'', ''B''] = {''A'', ''B''}"
    by (simp add: known_seeds_filter has_entity_def dict_contains_def dict_keys_def idx_triangle_def)
  moreover have "visited (ew_final idx_triangle [''A'', ''B''] 0 1 None True) = [(''A'', 0)]"
    by (simp add: ew_eval idx_triangle_def)
  then have "returned_ids idx_triangle [''A'', ''B''] 0 1 None True = {''A''}"
    by (simp add: returned_ids_eq dict_keys_def get_entity_def dict_get_def idx_triangle_def)
  ultimately show ?thesis by simp
qed

subsection \<open>Seeds are not filtered\<close>

lemma seeds_kept_step:
  assumes inv: "known_seeds idx seeds \<subseteq> set (dict_keys (visited t)) \<union> entity_id ` set (heap t)"
    and ne: "heap t \<noteq> []"
  shows "known_seeds idx seeds \<subseteq> set (dict_keys (visited (ew_step idx mh cf ic t)))
           \<union> entity_id ` set (heap (ew_step idx mh cf ic t))"
proof
  from ne obtain e h where e: "e \<in> set (heap t)" and h: "h = remove1 e (heap t)"
    and step: "ew_step idx mh cf ic t = settle idx mh cf ic t e h"
    by (rule ew_step_pop)
  let ?t' = "settle idx mh cf ic t e h"
  fix x assume "x \<in> known_seeds idx seeds"
  with inv have "x \<in> set (dict_keys (visited t)) \<or> x \<in> entity_id ` set (heap t)" by blast
  then have "x \<in> set (dict_keys (visited ?t')) \<union> entity_id ` set (heap ?t')"
  proof
    assume "x \<in> set (dict_keys (visited t))"
    then show ?thesis by (simp add: settle_visited_keys)
  next
    assume "x \<in> entity_id ` set (heap t)"
    then obtain e' where e': "e' \<in> set (heap t)" "x = entity_id e'" by blast
    show ?thesis
    proof (cases "e' = e")
      case True then show ?thesis using e' by (simp add: settle_visited_keys)
    next
      case False
      then have "e' \<in> set h" using e'(1) by (simp add: h)
      then have "e' \<in> set (heap ?t')" using settle_heap_mono by blast
      then show ?thesis using e'(2) by blast
    qed
  qed
  then show "x \<in> set (dict_keys (visited (ew_step idx mh cf ic t)))
           \<union> entity_id ` set (heap (ew_step idx mh cf ic t))" by (simp only: step)
qed

lemma seeds_kept_final:
  "known_seeds idx seeds \<subseteq> set (dict_keys (visited (ew_final idx seeds mh mr cf ic)))
           \<union> entity_id ` set (heap (ew_final idx seeds mh mr cf ic))"
proof -
  let ?I = "\<lambda>t :: ew_state. known_seeds idx seeds \<subseteq> set (dict_keys (visited t)) \<union> entity_id ` set (heap t)"
  have "?I (ew_loop idx mh mr cf ic (ew_init idx seeds)) \<and>
         (heap (ew_loop idx mh mr cf ic (ew_init idx seeds)) = [] \<or>
          mr \<le> int (length (visited (ew_loop idx mh mr cf ic (ew_init idx seeds)))))"
  proof (rule ew_loop_rule[where I = ?I])
    show "?I (ew_init idx seeds)" by (simp add: ew_init_props)
  next
    fix t assume "?I t" "heap t \<noteq> []"
    then show "?I (ew_step idx mh cf ic t)" by (rule seeds_kept_step)
  qed
  then show ?thesis by (simp add: ew_final_def)
qed

text \<open>
  C10 (amended). \<^verbatim>\<open>include_chunks\<close> and the commune filter are tested only when a
  neighbour is pushed, never on a seed: whatever the two parameters are, a seed that has
  entity metadata (be it chunk-typed, or of a commune outside the filter) is settled and
  returned, provided the loop ends because the heap is empty and not because
  \<open>max_results\<close> ids are visited.
\<close>

theorem seeds_bypass_filters:
  assumes "seed \<in> set seed_entities"
    and "get_entity idx seed = Some m"
    and "heap (ew_final idx seed_entities max_hops max_results commune_filter include_chunks) = []"
  shows "seed \<in> set (dict_keys (visited (ew_final idx seed_entities max_hops max_results
                                            commune_filter include_chunks))) \<and>
         seed \<in> returned_ids idx seed_entities max_hops max_results commune_filter include_chunks"
proof -
  have "seed \<in> known_seeds idx seed_entities"
    using assms(1,2) get_entity_has_entity by (simp add: known_seeds_def)
  then have "seed \<in> set (dict_keys (visited (ew_final idx seed_entities max_hops max_results
                                            commune_filter include_chunks)))"
    using seeds_kept_final[of idx seed_entities max_hops max_results commune_filter include_chunks]
      assms(3) by auto
  then show ?thesis using assms(2) by (simp add: returned_ids_eq)
qed

theorem seeds_bypass_filters_witness:
  "''K'' \<in> set [''A'', ''K''] \<and>
   get_entity idx_chunk ''K'' = Some entity_K \<and>
   entity_type entity_K = ''CHUNK'' \<and> commune entity_K \<notin> {''c2''} \<and>
   heap (ew_final idx_chunk [''A'', ''K''] 2 200 (Some {''c2''}) False) = [] \<and>
   ''K'' \<in> returned_ids idx_chunk [''A'', ''K''] 2 200 (Some {''c2''}) False"
proof -
  have g: "get_entity idx_chunk ''K'' = Some entity_K"
    by (simp add: get_entity_def dict_get_def idx_chunk_def)
  have h: "heap (ew_final idx_chunk [''A'', ''K''] 2 200 (Some {''c2''}) False) = []"
    by (simp add: ew_eval idx_chunk_def entity_K_def)
  have s: "''K'' \<in> set [''A'', ''K'']" by simp
  from seeds_bypass_filters [OF s g h] s g h show ?thesis by (simp add: entity_K_def)
qed

text \<open>
  Without the proviso the claim fails: seeds A and K with \<open>max_results = 1\<close>; the loop
  stops after A is settled and the chunk K, a seed, is not returned.
\<close>

theorem seed_truncated_counterexample:
  "get_entity idx_chunk ''K'' = Some entity_K \<and> entity_type entity_K = ''CHUNK'' \<and>
   ''K'' \<notin> returned_ids idx_chunk [''A'', ''K''] 2 1 (Some {''c2''}) False"
proof -
  have "visited (ew_final idx_chunk [''A'', ''K''] 2 1 (Some {''c2''}) False) = [(''A'', 0)]"
    by (simp add: ew_eval idx_chunk_def entity_K_def)
  then have "''K'' \<notin> returned_ids idx_chunk [''A'', ''K''] 2 1 (Some {''c2''}) False"
    by (simp add: returned_ids_eq dict_keys_def)
  moreover have "get_entity idx_chunk ''K'' = Some entity_K"
    by (simp add: get_entity_def dict_get_def idx_chunk_def)
  ultimately show ?thesis by (simp add: entity_K_def)
qed


subsection \<open>First settled wins\<close>

lemma entry_less_neg: "\<not> entry_less a b \<Longrightarrow> neg_weight b \<le> neg_weight a"
  by (auto simp: entry_less_def)

lemma entry_less_neg': "entry_less a b \<Longrightarrow> neg_weight a \<le> neg_weight b"
  by (auto simp: entry_less_def)

lemma heap_min_least: "e' \<in> set (m # es) \<Longrightarrow> neg_weight (heap_min m es) \<le> neg_weight e'"
proof (induction es arbitrary: m e')
  case Nil then show ?case by simp
next
  case (Cons a es)
  let ?m' = "if entry_less a m then a else m"
  have m': "neg_weight ?m' \<le> neg_weight m" "neg_weight ?m' \<le> neg_weight a"
    using entry_less_neg[of a m] entry_less_neg'[of a m] by auto
  have le: "neg_weight (heap_min ?m' es) \<le> neg_weight ?m'" by (rule Cons.IH) simp
  show ?case
  proof (cases "e' \<in> set es")
    case True
    then show ?thesis using Cons.IH[of e' ?m'] by simp
  next
    case False
    with Cons.prems have "e' = m \<or> e' = a" by auto
    then show ?thesis using m' le by auto
  qed
qed

lemma heappop_least:
  assumes "heappop h = Some (e, h')" "e' \<in> set h"
  shows "neg_weight e \<le> neg_weight e'"
proof -
  from assms(1) obtain x xs where h: "h = x # xs" "e = heap_min x xs"
    by (auto simp: heappop_def split: list.splits)
  then show ?thesis using heap_min_least[of e' x xs] assms(2) by simp
qed

lemma dict_get_append_keep:
  "dict_get d x = Some w \<Longrightarrow> dict_get (d @ d') x = Some w"
  by (simp add: dict_get_def)

lemma settle_keeps:
  assumes "dict_get (visited s) x = Some w"
  shows "dict_get (visited (settle idx mh cf ic s e h)) x = Some w"
  using assms by (simp add: settle_visited dict_get_append_keep)

lemma ew_step_keeps:
  assumes "dict_get (visited s) x = Some w"
  shows "dict_get (visited (ew_step idx mh cf ic s)) x = Some w"
proof (cases "heappop (heap s)")
  case None then show ?thesis using assms by (simp add: ew_step_def)
next
  case (Some eh)
  then show ?thesis using assms by (cases eh) (simp add: ew_step_def settle_keeps)
qed

lemma ew_loop_keeps:
  assumes "dict_get (visited s) x = Some w"
  shows "dict_get (visited (ew_loop idx mh mr cf ic s)) x = Some w"
proof -
  let ?I = "\<lambda>t :: ew_state. dict_get (visited t) x = Some w"
  have "?I (ew_loop idx mh mr cf ic s) \<and>
         (heap (ew_loop idx mh mr cf ic s) = [] \<or>
          mr \<le> int (length (visited (ew_loop idx mh mr cf ic s))))"
    by (rule ew_loop_rule[where I = ?I]) (simp_all add: assms ew_step_keeps)
  then show ?thesis by simp
qed

lemma ew_reachable_final:
  assumes "s \<in> ew_reachable idx seeds mh mr cf ic"
  shows "ew_loop idx mh mr cf ic s = ew_final idx seeds mh mr cf ic"
  using assms
proof (induction rule: ew_reachable.induct)
  case init show ?case by (simp add: ew_final_def)
next
  case (step s)
  have "ew_loop idx mh mr cf ic s = ew_loop idx mh mr cf ic (ew_step idx mh cf ic s)"
    using step.hyps(2,3) by (subst ew_loop.simps) simp
  then show ?case using step.IH by simp
qed

lemma fold_push_neighbor_new:
  "e' \<in> set (fst (fold (push_neighbor idx cf ic vis x w d) es hc)) \<Longrightarrow>
     e' \<in> set (fst hc) \<or> entity_id e' \<notin> set (dict_keys vis)"
proof (induction es arbitrary: hc)
  case Nil then show ?case by simp
next
  case (Cons a es)
  from Cons.prems have "e' \<in> set (fst (push_neighbor idx cf ic vis x w d a hc)) \<or>
      entity_id e' \<notin> set (dict_keys vis)"
    using Cons.IH[of "push_neighbor idx cf ic vis x w d a hc"] by simp
  then show ?case
    by (auto simp: push_neighbor_def heappush_def dict_contains_def split: if_splits)
qed

lemma settle_heap_new:
  assumes "e' \<in> set (heap (settle idx mh cf ic s e h))"
  shows "e' \<in> set h \<or> entity_id e' \<notin> set (dict_keys (visited (settle idx mh cf ic s e h)))"
proof (cases "dict_contains (visited s) (entity_id e) \<or> mh \<le> depth e")
  case True
  then have "heap (settle idx mh cf ic s e h) = h" by (auto simp: settle_def Let_def)
  with assms show ?thesis by simp
next
  case False
  let ?vis = "dict_set (visited s) (entity_id e) (- neg_weight e)"
  from False have v: "visited (settle idx mh cf ic s e h) = ?vis"
    and hp: "heap (settle idx mh cf ic s e h) =
      fst (fold (push_neighbor idx cf ic ?vis (entity_id e) (- neg_weight e) (depth e))
             (get_neighbors idx (entity_id e)) (h, next_counter s))"
    by (simp_all add: settle_def Let_def)
  from assms fold_push_neighbor_new[of e' idx cf ic ?vis "entity_id e" "- neg_weight e" "depth e"
      "get_neighbors idx (entity_id e)" "(h, next_counter s)"]
  show ?thesis unfolding hp v by simp
qed

lemma heap_bounded_step:
  assumes inv: "heap_bounded t" and ne: "heap t \<noteq> []"
  shows "heap_bounded (ew_step idx mh cf ic t)"
proof -
  from ne obtain e h where pop: "heappop (heap t) = Some (e, h)" and e: "e \<in> set (heap t)"
    and h: "h = remove1 e (heap t)"
    and step: "ew_step idx mh cf ic t = settle idx mh cf ic t e h"
    by (rule ew_step_pop)
  let ?t' = "settle idx mh cf ic t e h"
  have sub: "set h \<subseteq> set (heap t)" unfolding h by (rule set_remove1_subset)
  have "- neg_weight e' \<le> w"
    if xw: "(x, w) \<in> set (visited ?t')" and e': "e' \<in> set (heap ?t')" and id: "entity_id e' = x"
    for x w e'
  proof -
    have "x \<in> set (dict_keys (visited ?t'))" using xw by (force simp: dict_keys_def)
    with settle_heap_new[OF e'] id have eh: "e' \<in> set h" by blast
    then have e't: "e' \<in> set (heap t)" using sub by blast
    show ?thesis
    proof (cases "(x, w) \<in> set (visited t)")
      case True
      then show ?thesis using inv e't id by (force simp: heap_bounded_def)
    next
      case False
      with xw have "w = - neg_weight e"
        by (auto simp: settle_visited split: if_splits)
      moreover have "neg_weight e \<le> neg_weight e'" using pop e't by (rule heappop_least)
      ultimately show ?thesis by simp
    qed
  qed
  then show ?thesis unfolding step heap_bounded_def by force
qed

lemma ew_step_distinct:
  assumes "distinct (dict_keys (visited t))"
  shows "distinct (dict_keys (visited (ew_step idx mh cf ic t)))"
proof (cases "heappop (heap t)")
  case None then show ?thesis using assms by (simp add: ew_step_def)
next
  case (Some eh)
  then show ?thesis using assms by (cases eh) (simp add: ew_step_def settle_visited_distinct)
qed

lemma ew_reachable_inv:
  assumes "s \<in> ew_reachable idx seeds mh mr cf ic"
  shows "heap_bounded s \<and> distinct (dict_keys (visited s))"
  using assms
proof (induction rule: ew_reachable.induct)
  case init
  show ?case by (simp add: heap_bounded_def ew_init_props dict_keys_def)
next
  case (step s)
  show ?case using step.IH step.hyps(2)
    by (simp add: heap_bounded_step ew_step_distinct)
qed

lemma ew_final_distinct: "distinct (dict_keys (visited (ew_final idx seeds mh mr cf ic)))"
proof -
  let ?I = "\<lambda>t :: ew_state. distinct (dict_keys (visited t))"
  have "?I (ew_loop idx mh mr cf ic (ew_init idx seeds)) \<and>
         (heap (ew_loop idx mh mr cf ic (ew_init idx seeds)) = [] \<or>
          mr \<le> int (length (visited (ew_loop idx mh mr cf ic (ew_init idx seeds)))))"
  proof (rule ew_loop_rule[where I = ?I])
    show "?I (ew_init idx seeds)" by (simp add: ew_init_props dict_keys_def)
  next
    fix t :: ew_state assume "?I t"
    then show "?I (ew_step idx mh cf ic t)" by (rule ew_step_distinct)
  qed
  then show ?thesis by (simp add: ew_final_def)
qed

text \<open>
  C2 (amended). In every state \<open>s\<close> the loop of \<^verbatim>\<open>expand_weighted\<close> reaches, for an id
  \<open>x\<close> already settled with recorded weight \<open>w\<close>: an entry popped for \<open>x\<close> is skipped
  (the iteration only removes it from the heap) and its weight is no greater than \<open>w\<close>;
  the recorded weight is final, it is the weight of \<open>x\<close> when the loop ends and the
  traversal weight of \<open>x\<close> in the returned list. Nothing is said about walks that were
  never pushed: the recorded weight need not be the greatest over all walks of at most
  \<open>max_hops\<close> edges.
\<close>

theorem first_settled_wins:
  assumes "s \<in> ew_reachable idx seed_entities max_hops max_results commune_filter include_chunks"
    and "dict_get (visited s) x = Some w"
  shows "(\<forall>e h. heappop (heap s) = Some (e, h) \<and> entity_id e = x \<longrightarrow>
            ew_step idx max_hops commune_filter include_chunks s = s\<lparr>heap := h\<rparr> \<and>
            - neg_weight e \<le> w) \<and>
         dict_get (visited (ew_final idx seed_entities max_hops max_results commune_filter
                              include_chunks)) x = Some w \<and>
         (\<forall>r \<in> set (fst (expand_weighted idx seed_entities max_hops max_results commune_filter
                            include_chunks)). r_id r = x \<longrightarrow> traversal_weight r = w)"
proof (intro conjI allI impI ballI)
  fix e h assume a: "heappop (heap s) = Some (e, h) \<and> entity_id e = x"
  have c: "dict_contains (visited s) x"
    using assms(2) dict_get_None_iff[of "visited s" x] by auto
  then show "ew_step idx max_hops commune_filter include_chunks s = s\<lparr>heap := h\<rparr>"
    using a by (simp add: ew_step_def settle_def)
  have "heap_bounded s" using assms(1) ew_reachable_inv by blast
  moreover have "(x, w) \<in> set (visited s)" using assms(2) by (simp add: dict_get_def map_of_SomeD)
  moreover have "e \<in> set (heap s)" using a heappop_Some(1) by blast
  ultimately show "- neg_weight e \<le> w" using a by (force simp: heap_bounded_def)
next
  let ?f = "ew_final idx seed_entities max_hops max_results commune_filter include_chunks"
  have "dict_get (visited (ew_loop idx max_hops max_results commune_filter include_chunks s)) x
      = Some w"
    using assms(2) by (rule ew_loop_keeps)
  then show fin: "dict_get (visited ?f) x = Some w"
    using ew_reachable_final[OF assms(1)] by simp
  fix r
  assume r: "r \<in> set (fst (expand_weighted idx seed_entities max_hops max_results commune_filter
                            include_chunks))" and "r_id r = x"
  then have "(x, traversal_weight r) \<in> set (visited ?f)"
    by (auto simp: expand_weighted_entities)
  then have "dict_get (visited ?f) x = Some (traversal_weight r)"
    using ew_final_distinct[of idx seed_entities max_hops max_results commune_filter include_chunks]
    by (simp add: dict_get_def dict_keys_def)
  with fin show "traversal_weight r = w" by simp
qed


lemma triangle_s3_value:
  "triangle_s3 =
     \<lparr>heap = [\<lparr>neg_weight = - (2/10), depth = 1, counter = 2, entity_id = ''C'',
               came_from = Some \<lparr>pf_source = ''A'', pf_rel_type = ''RELATED_TO'',
                                 pf_weight = 1/10\<rparr>\<rparr>],
      visited = [(''A'', 0), (''B'', 11/10), (''C'', 22/10)],
      paths = [\<lparr>p_source = ''A'', p_target = ''B'', p_type = ''CONCERNE'', p_hop = 1,
                 p_weight = 1\<rparr>,
               \<lparr>p_source = ''B'', p_target = ''C'', p_type = ''CONCERNE'', p_hop = 2,
                 p_weight = 1\<rparr>],
      next_counter = 4\<rparr>"
  by (simp add: triangle_s3_def ew_eval idx_triangle_def)

lemma triangle_s3_reachable: "triangle_s3 \<in> ew_reachable idx_triangle [''A''] 2 200 None True"
proof -
  let ?R = "ew_reachable idx_triangle [''A''] 2 200 None True"
  let ?s0 = "ew_init idx_triangle [''A'']"
  let ?s1 = "ew_step idx_triangle 2 None True ?s0"
  let ?s2 = "ew_step idx_triangle 2 None True ?s1"
  have 0: "?s0 \<in> ?R" by (rule ew_reachable.init)
  have c0: "heap ?s0 \<noteq> []" "int (length (visited ?s0)) < 200"
    by (simp_all add: ew_eval idx_triangle_def)
  have 1: "?s1 \<in> ?R" using 0 c0 by (rule ew_reachable.step)
  have c1: "heap ?s1 \<noteq> []" "int (length (visited ?s1)) < 200"
    by (simp_all add: ew_eval idx_triangle_def)
  have 2: "?s2 \<in> ?R" using 1 c1 by (rule ew_reachable.step)
  have c2: "heap ?s2 \<noteq> []" "int (length (visited ?s2)) < 200"
    by (simp_all add: ew_eval idx_triangle_def)
  have "ew_step idx_triangle 2 None True ?s2 \<in> ?R" using 2 c2 by (rule ew_reachable.step)
  then show ?thesis by (simp only: triangle_s3_def)
qed

theorem first_settled_wins_witness:
  "triangle_s3 \<in> ew_reachable idx_triangle [''A''] 2 200 None True \<and>
   dict_get (visited triangle_s3) ''C'' = Some (22/10) \<and>
   map_option (entity_id \<circ> fst) (heappop (heap triangle_s3)) = Some ''C'' \<and>
   map_option (neg_weight \<circ> fst) (heappop (heap triangle_s3)) = Some (- (2/10)) \<and>
   ew_step idx_triangle 2 None True triangle_s3 = triangle_s3\<lparr>heap := []\<rparr> \<and>
   dict_get (visited (ew_final idx_triangle [''A''] 2 200 None True)) ''C'' = Some (22/10)"
proof -
  have v: "dict_get (visited triangle_s3) ''C'' = Some (22/10)"
    by (simp add: triangle_s3_value dict_get_def)
  have p: "heappop (heap triangle_s3) =
      Some (\<lparr>neg_weight = - (2/10), depth = 1, counter = 2, entity_id = ''C'',
               came_from = Some \<lparr>pf_source = ''A'', pf_rel_type = ''RELATED_TO'',
                                 pf_weight = 1/10\<rparr>\<rparr>, [])"
    by (simp add: triangle_s3_value heappop_def)
  from first_settled_wins [OF triangle_s3_reachable v] p
  have "ew_step idx_triangle 2 None True triangle_s3 = triangle_s3\<lparr>heap := []\<rparr>"
    and "dict_get (visited (ew_final idx_triangle [''A''] 2 200 None True)) ''C'' = Some (22/10)"
    by simp_all
  then show ?thesis using triangle_s3_reachable v p by simp
qed

text \<open>
  The maximality the claim states fails, with no truncation (the heap is empty at the
  end): from A with two hops, B is settled first, over the edge of weight 1 with type bonus
  1/10, at 11/10; the walk A, C, B has the cumulative weight (1/10 + 1/10) + (1 + 1/10)
  = 13/10. Weights grow along an expansion, so a longer walk can outweigh the one settled
  first.
\<close>

theorem settled_weight_not_maximal_counterexample:
  "heap (ew_final idx_triangle [''A''] 2 200 None True) = [] \<and>
   \<not> settled_weights_maximal idx_triangle [''A''] 2 200 None True"
proof
  show "heap (ew_final idx_triangle [''A''] 2 200 None True) = []"
    by (simp add: ew_eval idx_triangle_def)
  show "\<not> settled_weights_maximal idx_triangle [''A''] 2 200 None True"
  proof
    assume m: "settled_weights_maximal idx_triangle [''A''] 2 200 None True"
    let ?es = "[mk_edge ''C'' ''RELATED_TO'' (1/10), mk_edge ''B'' ''CONCERNE'' 1]"
    have "dict_get (visited (ew_final idx_triangle [''A''] 2 200 None True)) ''B'' = Some (11/10)"
      by (simp add: ew_eval idx_triangle_def)
    moreover have "''A'' \<in> known_seeds idx_triangle [''A'']"
      by (simp add: known_seeds_def has_entity_def dict_contains_def dict_keys_def idx_triangle_def)
    moreover have "int (length ?es) \<le> 2" by simp
    moreover have "walk_weight idx_triangle ''A'' 0 ?es = Some (''B'', 13/10)"
      by (simp add: get_neighbors_def get_entity_def dict_get_def idx_triangle_def mk_edge_def
          mk_entity_def type_bonus_def ENTITY_TYPE_PRIORITY_def)
    ultimately have "(13/10 :: real) \<le> 11/10"
      using m unfolding settled_weights_maximal_def by blast
    then show False by simp
  qed
qed

section \<open>Two calls of the expansion return the same entities\<close>

subsection \<open>The queue's choice is forced\<close>

lemma entry_less_irrefl: "\<not> entry_less a a"
  by (simp add: entry_less_def)

lemma entry_le_trans: "\<not> entry_less b a \<Longrightarrow> \<not> entry_less c b \<Longrightarrow> \<not> entry_less c a"
  unfolding entry_less_def
  by (cases "neg_weight a" "neg_weight b" rule: linorder_cases;
      cases "neg_weight b" "neg_weight c" rule: linorder_cases;
      cases "depth a" "depth b" rule: linorder_cases;
      cases "depth b" "depth c" rule: linorder_cases) simp_all

lemma entry_less_total:
  "\<not> entry_less a b \<Longrightarrow> \<not> entry_less b a \<Longrightarrow> counter a = counter b"
  unfolding entry_less_def
  by (cases "neg_weight a" "neg_weight b" rule: linorder_cases;
      cases "depth a" "depth b" rule: linorder_cases) simp_all

lemma heap_min_minimal: "e' \<in> set (m # es) \<Longrightarrow> \<not> entry_less e' (heap_min m es)"
proof (induction es arbitrary: m e')
  case Nil then show ?case by (simp add: entry_less_irrefl)
next
  case (Cons a es)
  let ?m' = "if entry_less a m then a else m"
  have le: "\<not> entry_less ?m' (heap_min ?m' es)" by (rule Cons.IH) simp
  show ?case
  proof (cases "e' \<in> set es")
    case True
    then show ?thesis using Cons.IH[of e' ?m'] by simp
  next
    case False
    with Cons.prems have e': "e' = m \<or> e' = a" by auto
    have "\<not> entry_less e' ?m'"
    proof (cases "entry_less a m")
      case True
      have "\<not> entry_less m a"
        using True entry_le_trans[of m a m] entry_less_irrefl[of m] by (auto simp: entry_less_def)
      then show ?thesis using e' True by (auto simp: entry_less_irrefl)
    next
      case False then show ?thesis using e' by (auto simp: entry_less_irrefl)
    qed
    then have "\<not> entry_less e' (heap_min ?m' es)" using le entry_le_trans by blast
    then show ?thesis by simp
  qed
qed

lemma least_entry_unique:
  assumes d: "distinct (map counter h)"
    and pop: "heappop h = Some (m, h')"
    and e: "e \<in> set h" and least: "\<forall>e' \<in> set h. \<not> entry_less e' e"
  shows "e = m"
proof -
  from pop obtain x xs where h: "h = x # xs" "m = heap_min x xs"
    by (auto simp: heappop_def split: list.splits)
  have m: "m \<in> set h" using heappop_Some(1)[OF pop] .
  have "\<not> entry_less e m" using heap_min_minimal[of e x xs] e h by simp
  moreover have "\<not> entry_less m e" using least m by blast
  ultimately have "counter e = counter m" by (rule entry_less_total)
  moreover have "inj_on counter (set h)" using d by (simp add: distinct_map)
  ultimately show ?thesis using e m by (auto dest: inj_onD)
qed

subsection \<open>Counters stay fresh\<close>

lemma push_neighbor_fresh:
  assumes "distinct (map counter (fst hc))" "\<forall>e \<in> set (fst hc). counter e < snd hc"
  shows "distinct (map counter (fst (push_neighbor idx cf ic vis x w d a hc))) \<and>
         (\<forall>e \<in> set (fst (push_neighbor idx cf ic vis x w d a hc)).
            counter e < snd (push_neighbor idx cf ic vis x w d a hc))"
  using assms by (auto simp: push_neighbor_def heappush_def)

lemma fold_push_neighbor_fresh:
  assumes "distinct (map counter (fst hc))" "\<forall>e \<in> set (fst hc). counter e < snd hc"
  shows "distinct (map counter (fst (fold (push_neighbor idx cf ic vis x w d) es hc))) \<and>
         (\<forall>e \<in> set (fst (fold (push_neighbor idx cf ic vis x w d) es hc)).
            counter e < snd (fold (push_neighbor idx cf ic vis x w d) es hc))"
  using assms
proof (induction es arbitrary: hc)
  case Nil then show ?case by simp
next
  case (Cons a es)
  from push_neighbor_fresh[OF Cons.prems, of idx cf ic vis x w d a]
  show ?case using Cons.IH[of "push_neighbor idx cf ic vis x w d a hc"] by simp
qed

lemma settle_fresh:
  assumes f: "counters_fresh s" and sub: "set h \<subseteq> set (heap s)"
    and d: "distinct (map counter h)"
  shows "counters_fresh (settle idx mh cf ic s e h)"
proof -
  have b: "\<forall>e \<in> set h. counter e < next_counter s" using f sub by (auto simp: counters_fresh_def)
  show ?thesis
  proof (cases "dict_contains (visited s) (entity_id e) \<or> mh \<le> depth e")
    case True
    then show ?thesis using d b by (auto simp: counters_fresh_def settle_def Let_def)
  next
    case False
    let ?hc = "fold (push_neighbor idx cf ic (dict_set (visited s) (entity_id e) (- neg_weight e))
                 (entity_id e) (- neg_weight e) (depth e))
                 (get_neighbors idx (entity_id e)) (h, next_counter s)"
    have "distinct (map counter (fst ?hc)) \<and> (\<forall>e \<in> set (fst ?hc). counter e < snd ?hc)"
      using d b by (intro fold_push_neighbor_fresh) simp_all
    then show ?thesis using False by (simp add: counters_fresh_def settle_def Let_def)
  qed
qed

lemma remove1_counters:
  "distinct (map counter h) \<Longrightarrow> distinct (map counter (remove1 e h))"
proof -
  assume "distinct (map counter h)"
  then have "distinct h" "inj_on counter (set h)" by (simp_all add: distinct_map)
  moreover have "set (remove1 e h) \<subseteq> set h" by (rule set_remove1_subset)
  ultimately have "distinct (remove1 e h)" "inj_on counter (set (remove1 e h))"
    by (auto intro: inj_on_subset)
  then show ?thesis by (simp add: distinct_map)
qed

lemma push_seed_fresh: "counters_fresh s \<Longrightarrow> counters_fresh (push_seed idx x s)"
  by (auto simp: counters_fresh_def push_seed_def heappush_def)

lemma ew_init_fresh: "counters_fresh (ew_init idx seeds)"
proof -
  have "counters_fresh s \<Longrightarrow> counters_fresh (fold (push_seed idx) xs s)" for xs s
    by (induction xs arbitrary: s) (simp_all add: push_seed_fresh)
  then show ?thesis by (simp add: ew_init_def counters_fresh_def)
qed

subsection \<open>Every run ends in the state the loop computes\<close>

lemma ew_run_is_ew_loop:
  assumes "ew_run idx mh mr cf ic s s'" "counters_fresh s"
  shows "s' = ew_loop idx mh mr cf ic s"
  using assms
proof (induction rule: ew_run.induct)
  case (stop s)
  then show ?case by (subst ew_loop.simps) auto
next
  case (pop s e s')
  from pop.hyps(1) obtain m h where p: "heappop (heap s) = Some (m, h)"
    by (cases "heappop (heap s)") (auto simp: heappop_None)
  have d: "distinct (map counter (heap s))" using pop.prems by (simp add: counters_fresh_def)
  have em: "e = m" using d p pop.hyps(3,4) by (rule least_entry_unique)
  have h: "h = remove1 e (heap s)" using heappop_Some(2)[OF p] em by simp
  have step: "ew_step idx mh cf ic s = settle idx mh cf ic s e (remove1 e (heap s))"
    using p em h by (simp add: ew_step_def)
  have "counters_fresh (settle idx mh cf ic s e (remove1 e (heap s)))"
    using pop.prems set_remove1_subset remove1_counters[OF d] by (rule settle_fresh)
  then have "s' = ew_loop idx mh mr cf ic (ew_step idx mh cf ic s)"
    using pop.IH step by simp
  also have "\<dots> = ew_loop idx mh mr cf ic s"
    using pop.hyps(1,2) by (subst (2) ew_loop.simps) simp
  finally show ?case .
qed

lemma ew_loop_is_run:
  "counters_fresh s \<Longrightarrow> ew_run idx mh mr cf ic s (ew_loop idx mh mr cf ic s)"
proof (induction idx mh mr cf ic s rule: ew_loop.induct)
  case (1 idx mh mr cf ic s)
  show ?case
  proof (cases "heap s \<noteq> [] \<and> int (length (visited s)) < mr")
    case False
    then have "ew_loop idx mh mr cf ic s = s" by (subst ew_loop.simps) auto
    then show ?thesis using False by (simp add: ew_run.stop)
  next
    case True
    then obtain m h where p: "heappop (heap s) = Some (m, h)"
      by (cases "heappop (heap s)") (auto simp: heappop_None)
    note ps = heappop_Some[OF p]
    from p obtain x xs where hx: "heap s = x # xs" "m = heap_min x xs"
      by (auto simp: heappop_def split: list.splits)
    have least: "\<forall>e' \<in> set (heap s). \<not> entry_less e' m"
      using heap_min_minimal[of _ x xs] hx by simp
    have step: "ew_step idx mh cf ic s = settle idx mh cf ic s m (remove1 m (heap s))"
      using p ps(2) by (simp add: ew_step_def)
    have d: "distinct (map counter (heap s))" using "1.prems" by (simp add: counters_fresh_def)
    have fr: "counters_fresh (ew_step idx mh cf ic s)"
      unfolding step using "1.prems" set_remove1_subset remove1_counters[OF d] by (rule settle_fresh)
    have "ew_run idx mh mr cf ic (ew_step idx mh cf ic s)
            (ew_loop idx mh mr cf ic (ew_step idx mh cf ic s))"
      using "1.IH"[OF True fr] .
    moreover have "ew_loop idx mh mr cf ic s = ew_loop idx mh mr cf ic (ew_step idx mh cf ic s)"
      using True by (subst ew_loop.simps) simp
    ultimately show ?thesis
      using True ps(1) least unfolding step by (auto intro: ew_run.pop)
  qed
qed

text \<open>
  C5. For a fixed index, seed list and parameters, any two calls of \<^verbatim>\<open>expand_weighted\<close>
  return the same set of entities. A call reads the index and nothing else; the one choice
  it leaves to its priority queue, which least entry to pop, is forced by the counters: any
  two results of runs, whatever least entry each pop hands out, have the same entities (and
  are the result the loop computes, order included).
\<close>

theorem expand_weighted_deterministic:
  assumes "expand_weighted_returns idx seed_entities max_hops max_results commune_filter
             include_chunks r1"
    and "expand_weighted_returns idx seed_entities max_hops max_results commune_filter
             include_chunks r2"
  shows "set (fst r1) = set (fst r2) \<and>
         r1 = expand_weighted idx seed_entities max_hops max_results commune_filter include_chunks"
proof -
  have "r = expand_weighted idx seed_entities max_hops max_results commune_filter include_chunks"
    if "expand_weighted_returns idx seed_entities max_hops max_results commune_filter
          include_chunks r" for r
  proof -
    from that obtain s where
      run: "ew_run idx max_hops max_results commune_filter include_chunks (ew_init idx seed_entities) s"
      and r: "r = (entities_of idx s, paths s)"
      by (auto simp: expand_weighted_returns_def)
    have "s = ew_final idx seed_entities max_hops max_results commune_filter include_chunks"
      using ew_run_is_ew_loop[OF run ew_init_fresh] by (simp add: ew_final_def)
    then show ?thesis by (simp add: r expand_weighted_def entities_of_def Let_def)
  qed
  from this[OF assms(1)] this[OF assms(2)] show ?thesis by simp
qed

lemma expand_weighted_is_returned:
  "expand_weighted_returns idx seeds mh mr cf ic (expand_weighted idx seeds mh mr cf ic)"
  unfolding expand_weighted_returns_def
  using ew_loop_is_run[OF ew_init_fresh, of idx mh mr cf ic idx seeds]
  by (auto simp: expand_weighted_def entities_of_def Let_def ew_final_def)

theorem expand_weighted_deterministic_witness:
  "expand_weighted_returns idx_triangle [''A''] 2 200 None True
     (expand_weighted idx_triangle [''A''] 2 200 None True) \<and>
   set (fst (expand_weighted idx_triangle [''A''] 2 200 None True))
     = set (fst (expand_weighted idx_triangle [''A''] 2 200 None True))"
  using expand_weighted_deterministic [OF expand_weighted_is_returned expand_weighted_is_returned,
      of idx_triangle "[''A'']" 2 200 None True]
    expand_weighted_is_returned [of idx_triangle "[''A'']" 2 200 None True]
  by simp

section \<open>Properties of the loader\<close>

subsection \<open>Appending to an adjacency list\<close>

lemma adj_append_Nil: "adj_append [] k e = [(k, [e])]"
  by (simp add: adj_append_def dict_set_def dict_get_def)

lemma adj_append_Cons:
  "adj_append ((k', v) # rest) k e =
     (if k' = k then (k, v @ [e]) # rest else (k', v) # adj_append rest k e)"
  by (simp add: adj_append_def dict_set_def dict_get_def)

lemma adj_append_get:
  "dict_get (adj_append adj k e) x =
     (if x = k then Some ((case dict_get adj k of None \<Rightarrow> [] | Some es \<Rightarrow> es) @ [e])
      else dict_get adj x)"
  by (simp add: adj_append_def dict_set_def dict_get_def AList.update_conv)

lemma adj_append_sum:
  "(\<Sum>kv \<leftarrow> adj_append adj k e. length (snd kv)) = (\<Sum>kv \<leftarrow> adj. length (snd kv)) + 1"
proof (induction adj)
  case Nil show ?case by (simp add: adj_append_Nil)
next
  case (Cons a adj)
  obtain k' v where a: "a = (k', v)" by (cases a)
  show ?case using Cons.IH by (simp add: a adj_append_Cons)
qed

lemma get_neighbors_adj_append:
  "get_neighbors (idx\<lparr>adjacency := adj_append (adjacency idx) k e\<rparr>) x =
     (if x = k then get_neighbors idx x @ [e] else get_neighbors idx x)"
  by (simp add: get_neighbors_def adj_append_get)

subsection \<open>The loops over nodes and edges\<close>

lemma load_node_props:
  "snd (load_node c km n st) = snd st + (if node_kept n then 1 else 0)"
  "adjacency (fst (load_node c km n st)) = adjacency (fst st)"
  "total_nodes (fst (load_node c km n st)) = total_nodes (fst st)"
  "total_edges (fst (load_node c km n st)) = total_edges (fst st)"
  by (simp_all add: load_node_def Let_def node_kept_def)

lemma load_nodes_props:
  "snd (fold (load_node c km) ns st) = snd st + length (filter node_kept ns)"
  "adjacency (fst (fold (load_node c km) ns st)) = adjacency (fst st)"
  "total_nodes (fst (fold (load_node c km) ns st)) = total_nodes (fst st)"
  "total_edges (fst (fold (load_node c km) ns st)) = total_edges (fst st)"
  by (induction ns arbitrary: st) (simp_all add: load_node_props)

lemma load_edge_props:
  "snd (load_edge km e st) = snd st + (if edge_kept e then 1 else 0)"
  "total_nodes (fst (load_edge km e st)) = total_nodes (fst st)"
  "total_edges (fst (load_edge km e st)) = total_edges (fst st)"
  by (simp_all add: load_edge_def Let_def edge_kept_def)

lemma load_edge_neighbors:
  "get_neighbors (fst (load_edge km e st)) x = get_neighbors (fst st) x @ entries_under km x e"
proof (cases "edge_kept e")
  case False
  then have "entries_under km x e = []" by (simp add: entries_under_def)
  moreover have "load_edge km e st = st"
    using False by (simp add: load_edge_def Let_def edge_kept_def)
  ultimately show ?thesis by simp
next
  case True
  let ?s = "strip_quotes (ge_source e)" and ?t = "strip_quotes (ge_target e)"
  let ?a = "\<lparr>target = ?t, rel_type = edge_rel_type km e, weight = edge_weight km e\<rparr>"
  let ?b = "\<lparr>target = ?s, rel_type = edge_rel_type km e, weight = edge_weight km e\<rparr>"
  let ?i1 = "(fst st)\<lparr>adjacency := adj_append (adjacency (fst st)) ?s ?a\<rparr>"
  have "fst (load_edge km e st) = ?i1\<lparr>adjacency := adj_append (adjacency ?i1) ?t ?b\<rparr>"
    using True by (simp add: load_edge_def Let_def edge_kept_def)
  then have "get_neighbors (fst (load_edge km e st)) x =
      (if x = ?t then get_neighbors ?i1 x @ [?b] else get_neighbors ?i1 x)"
    by (simp only: get_neighbors_adj_append)
  also have "get_neighbors ?i1 x = (if x = ?s then get_neighbors (fst st) x @ [?a]
      else get_neighbors (fst st) x)"
    by (rule get_neighbors_adj_append)
  finally show ?thesis using True by (auto simp: entries_under_def)
qed

lemma load_edge_num_entries:
  "num_entries (fst (load_edge km e st)) = num_entries (fst st) + (if edge_kept e then 2 else 0)"
  by (simp add: load_edge_def Let_def edge_kept_def num_entries_def adj_append_sum)

lemma load_edges_fold:
  "snd (fold (load_edge km) es st) = snd st + length (filter edge_kept es)"
  "total_nodes (fst (fold (load_edge km) es st)) = total_nodes (fst st)"
  "total_edges (fst (fold (load_edge km) es st)) = total_edges (fst st)"
  "get_neighbors (fst (fold (load_edge km) es st)) x
     = get_neighbors (fst st) x @ concat (map (entries_under km x) es)"
  "num_entries (fst (fold (load_edge km) es st))
     = num_entries (fst st) + 2 * length (filter edge_kept es)"
  by (induction es arbitrary: st)
     (simp_all add: load_edge_props load_edge_neighbors load_edge_num_entries)


subsection \<open>The chunk store\<close>

lemma get_neighbors_cong: "adjacency a = adjacency b \<Longrightarrow> get_neighbors a x = get_neighbors b x"
  by (simp add: get_neighbors_def)

lemma load_chunk_records_props:
  "adjacency (fst (snd (load_chunk_records c recs st))) = adjacency (fst st)"
  "total_nodes (fst (snd (load_chunk_records c recs st))) = total_nodes (fst st)"
  "total_edges (fst (snd (load_chunk_records c recs st))) = total_edges (fst st)"
  by (induction c recs st rule: load_chunk_records.induct)
     (simp_all add: store_chunk_def store_chunk_entity_def split: option.splits)

lemma link_chunk_props:
  "total_nodes (link_chunk eid cid idx) = total_nodes idx"
  "total_edges (link_chunk eid cid idx) = total_edges idx"
  "prefix (get_neighbors idx x) (get_neighbors (link_chunk eid cid idx) x)"
proof -
  show "total_nodes (link_chunk eid cid idx) = total_nodes idx"
    "total_edges (link_chunk eid cid idx) = total_edges idx"
    by (simp_all add: link_chunk_def)
  show "prefix (get_neighbors idx x) (get_neighbors (link_chunk eid cid idx) x)"
  proof (cases "dict_contains (chunks idx) cid")
    case False then show ?thesis by (simp add: link_chunk_def)
  next
    case True
    let ?w = "case dict_get RELATIONSHIP_WEIGHTS ''HAS_SOURCE'' of None \<Rightarrow> 9/10 | Some w \<Rightarrow> w"
    let ?a = "\<lparr>target = cid, rel_type = ''HAS_SOURCE'', weight = ?w\<rparr>"
    let ?b = "\<lparr>target = eid, rel_type = ''SOURCED_BY'', weight = ?w\<rparr>"
    let ?i1 = "idx\<lparr>adjacency := adj_append (adjacency idx) eid ?a\<rparr>"
    have "link_chunk eid cid idx = ?i1\<lparr>adjacency := adj_append (adjacency ?i1) cid ?b\<rparr>"
      using True by (simp add: link_chunk_def)
    then have "get_neighbors (link_chunk eid cid idx) x =
        (if x = cid then get_neighbors ?i1 x @ [?b] else get_neighbors ?i1 x)"
      by (simp only: get_neighbors_adj_append)
    also have "get_neighbors ?i1 x = (if x = eid then get_neighbors idx x @ [?a]
        else get_neighbors idx x)"
      by (rule get_neighbors_adj_append)
    finally show ?thesis by auto
  qed
qed

lemma fold_link_chunk_props:
  "total_nodes (fold (link_chunk eid) cids idx) = total_nodes idx"
  "total_edges (fold (link_chunk eid) cids idx) = total_edges idx"
  "prefix (get_neighbors idx x) (get_neighbors (fold (link_chunk eid) cids idx) x)"
proof (induction cids arbitrary: idx)
  case Nil
  { case 1 show ?case by simp }
  { case 2 show ?case by simp }
  { case 3 show ?case by simp }
next
  case (Cons c cids)
  { case 1 show ?case by (simp add: Cons.IH link_chunk_props) }
  { case 2 show ?case by (simp add: Cons.IH link_chunk_props) }
  { case 3 show ?case
      using prefix_order.trans[OF link_chunk_props(3)[of idx x eid c]
          Cons.IH(3)[of "link_chunk eid c idx"]] by simp }
qed

lemma link_entity_props:
  "total_nodes (link_entity c src idx) = total_nodes idx"
  "total_edges (link_entity c src idx) = total_edges idx"
  "prefix (get_neighbors idx x) (get_neighbors (link_entity c src idx) x)"
  by (simp_all add: link_entity_def fold_link_chunk_props split: option.splits)

lemma fold_link_entity_props:
  "total_nodes (fold (link_entity c) srcs idx) = total_nodes idx"
  "total_edges (fold (link_entity c) srcs idx) = total_edges idx"
  "prefix (get_neighbors idx x) (get_neighbors (fold (link_entity c) srcs idx) x)"
proof (induction srcs arbitrary: idx)
  case Nil
  { case 1 show ?case by simp }
  { case 2 show ?case by simp }
  { case 3 show ?case by simp }
next
  case (Cons a srcs)
  { case 1 show ?case by (simp add: Cons.IH link_entity_props) }
  { case 2 show ?case by (simp add: Cons.IH link_entity_props) }
  { case 3 show ?case
      using prefix_order.trans[OF link_entity_props(3)[of idx x c a]
          Cons.IH(3)[of "link_entity c a idx"]] by simp }
qed

lemma load_commune_chunks_props:
  "total_nodes (fst (load_commune_chunks c cf idx)) = total_nodes idx"
  "total_edges (fst (load_commune_chunks c cf idx)) = total_edges idx"
  "prefix (get_neighbors idx x) (get_neighbors (fst (load_commune_chunks c cf idx)) x)"
proof -
  have "total_nodes (fst (load_commune_chunks c cf idx)) = total_nodes idx \<and>
        total_edges (fst (load_commune_chunks c cf idx)) = total_edges idx \<and>
        prefix (get_neighbors idx x) (get_neighbors (fst (load_commune_chunks c cf idx)) x)"
  proof (cases cf)
    case (ChunksData recs)
    obtain ok st where r: "load_chunk_records c recs (idx, 0) = (ok, st)"
      by (cases "load_chunk_records c recs (idx, 0)")
    have adj: "adjacency (fst st) = adjacency idx"
      and tn: "total_nodes (fst st) = total_nodes idx"
      and te: "total_edges (fst st) = total_edges idx"
      using load_chunk_records_props[of c recs "(idx, 0)"] r by simp_all
    from adj have g: "get_neighbors (fst st) x = get_neighbors idx x" by (rule get_neighbors_cong)
    show ?thesis
    proof (cases ok)
      case True
      then have "fst (load_commune_chunks c cf idx)
          = fold (link_entity c) (entity_source_ids (fst st)) (fst st)"
        by (simp add: load_commune_chunks_def ChunksData r)
      then show ?thesis
        using fold_link_entity_props(3)[of "fst st" x c "entity_source_ids (fst st)"]
        by (simp add: tn te g fold_link_entity_props(1,2))
    next
      case False
      then have "fst (load_commune_chunks c cf idx) = fst st"
        by (simp add: load_commune_chunks_def ChunksData r)
      then show ?thesis by (simp add: tn te g)
    qed
  qed (simp_all add: load_commune_chunks_def)
  then show "total_nodes (fst (load_commune_chunks c cf idx)) = total_nodes idx"
    "total_edges (fst (load_commune_chunks c cf idx)) = total_edges idx"
    "prefix (get_neighbors idx x) (get_neighbors (fst (load_commune_chunks c cf idx)) x)"
    by simp_all
qed

subsection \<open>One collection, all collections\<close>

lemma load_commune_totals:
  "total_nodes (load_commune c gf cf idx)
     = total_nodes idx + length (filter node_kept (file_nodes gf))"
  "total_edges (load_commune c gf cf idx)
     = total_edges idx + length (filter edge_kept (file_edges gf))"
proof -
  have "total_nodes (load_commune c gf cf idx)
     = total_nodes idx + length (filter node_kept (file_nodes gf)) \<and>
    total_edges (load_commune c gf cf idx)
     = total_edges idx + length (filter edge_kept (file_edges gf))"
  proof (cases gf)
    case (GraphParsed g)
    let ?km = "build_key_map (gm_keys g)"
    let ?ns = "load_nodes c ?km (gm_nodes g) idx"
    let ?es = "load_edges ?km (gm_edges g) (fst ?ns)"
    let ?i1 = "(fst ?es)\<lparr>total_nodes := total_nodes (fst ?es) + snd ?ns,
                           total_edges := total_edges (fst ?es) + snd ?es,
                           loaded_communes := insert c (loaded_communes (fst ?es))\<rparr>"
    let ?ch = "load_commune_chunks c cf ?i1"
    have n: "snd ?ns = length (filter node_kept (gm_nodes g))"
      "total_nodes (fst ?ns) = total_nodes idx" "total_edges (fst ?ns) = total_edges idx"
      by (simp_all add: load_nodes_def load_nodes_props)
    have e: "snd ?es = length (filter edge_kept (gm_edges g))"
      "total_nodes (fst ?es) = total_nodes idx" "total_edges (fst ?es) = total_edges idx"
      by (simp_all add: load_edges_def load_edges_fold n)
    have t: "total_nodes (fst ?ch) = total_nodes ?i1" "total_edges (fst ?ch) = total_edges ?i1"
      by (rule load_commune_chunks_props)+
    have "total_nodes (load_commune c gf cf idx) = total_nodes (fst ?ch)"
      "total_edges (load_commune c gf cf idx) = total_edges (fst ?ch)"
      by (simp_all add: load_commune_def GraphParsed Let_def split: option.splits)
    then show ?thesis
      unfolding t by (simp add: n e file_nodes_def file_edges_def GraphParsed)
  qed (simp_all add: load_commune_def file_nodes_def file_edges_def)
  then show "total_nodes (load_commune c gf cf idx)
     = total_nodes idx + length (filter node_kept (file_nodes gf))"
    "total_edges (load_commune c gf cf idx)
     = total_edges idx + length (filter edge_kept (file_edges gf))"
    by simp_all
qed

lemma load_commune_prefix:
  "prefix (get_neighbors idx x) (get_neighbors (load_commune c gf cf idx) x)"
proof (cases gf)
  case (GraphParsed g)
  let ?km = "build_key_map (gm_keys g)"
  let ?ns = "load_nodes c ?km (gm_nodes g) idx"
  let ?es = "load_edges ?km (gm_edges g) (fst ?ns)"
  let ?i1 = "(fst ?es)\<lparr>total_nodes := total_nodes (fst ?es) + snd ?ns,
                         total_edges := total_edges (fst ?es) + snd ?es,
                         loaded_communes := insert c (loaded_communes (fst ?es))\<rparr>"
  have a: "get_neighbors (fst ?ns) x = get_neighbors idx x"
    by (rule get_neighbors_cong) (simp add: load_nodes_def load_nodes_props)
  have b: "get_neighbors ?i1 x = get_neighbors (fst ?es) x"
    by (rule get_neighbors_cong) simp
  have "prefix (get_neighbors idx x) (get_neighbors ?i1 x)"
    unfolding b by (simp add: load_edges_def load_edges_fold a)
  then have "prefix (get_neighbors idx x) (get_neighbors (fst (load_commune_chunks c cf ?i1)) x)"
    using load_commune_chunks_props(3)[of ?i1 x c cf] by (rule prefix_order.trans)
  moreover have "get_neighbors (load_commune c gf cf idx) x
      = get_neighbors (fst (load_commune_chunks c cf ?i1)) x"
    by (rule get_neighbors_cong)
       (simp add: load_commune_def GraphParsed Let_def split: option.splits)
  ultimately show ?thesis by simp
qed (simp_all add: load_commune_def)

lemma load_commune_entries:
  "prefix (get_neighbors idx x @ concat (map (entries_under (build_key_map (gm_keys g)) x) (gm_edges g)))
          (get_neighbors (load_commune c (GraphParsed g) cf idx) x)"
proof -
  let ?km = "build_key_map (gm_keys g)"
  let ?ns = "load_nodes c ?km (gm_nodes g) idx"
  let ?es = "load_edges ?km (gm_edges g) (fst ?ns)"
  let ?i1 = "(fst ?es)\<lparr>total_nodes := total_nodes (fst ?es) + snd ?ns,
                         total_edges := total_edges (fst ?es) + snd ?es,
                         loaded_communes := insert c (loaded_communes (fst ?es))\<rparr>"
  have a: "get_neighbors (fst ?ns) x = get_neighbors idx x"
    by (rule get_neighbors_cong) (simp add: load_nodes_def load_nodes_props)
  have b: "get_neighbors ?i1 x = get_neighbors (fst ?es) x"
    by (rule get_neighbors_cong) simp
  have "get_neighbors ?i1 x
      = get_neighbors idx x @ concat (map (entries_under ?km x) (gm_edges g))"
    unfolding b by (simp add: load_edges_def load_edges_fold a)
  moreover have "prefix (get_neighbors ?i1 x) (get_neighbors (fst (load_commune_chunks c cf ?i1)) x)"
    by (rule load_commune_chunks_props)
  moreover have "get_neighbors (load_commune c (GraphParsed g) cf idx) x
      = get_neighbors (fst (load_commune_chunks c cf ?i1)) x"
    by (rule get_neighbors_cong)
       (simp add: load_commune_def Let_def split: option.splits)
  ultimately show ?thesis by simp
qed

lemma initialize_Nil: "initialize [] idx = idx"
  by (simp add: initialize_def)

lemma initialize_Cons:
  "initialize (c # cs) idx = initialize cs (load_commune (fst c) (fst (snd c)) (snd (snd c)) idx)"
  by (simp add: initialize_def)

lemma initialize_append: "initialize (cs @ ds) idx = initialize ds (initialize cs idx)"
  by (simp add: initialize_def)

lemma initialize_totals:
  "total_nodes (initialize cs idx) = total_nodes idx + count_nodes cs"
  "total_edges (initialize cs idx) = total_edges idx + count_edges cs"
  by (induction cs arbitrary: idx)
     (simp_all add: initialize_Nil initialize_Cons load_commune_totals count_nodes_def
        count_edges_def)

lemma initialize_prefix: "prefix (get_neighbors idx x) (get_neighbors (initialize cs idx) x)"
proof (induction cs arbitrary: idx)
  case Nil show ?case by (simp add: initialize_Nil)
next
  case (Cons c cs)
  show ?case
    using prefix_order.trans[OF load_commune_prefix[of idx x "fst c" "fst (snd c)" "snd (snd c)"]
      Cons.IH[of "load_commune (fst c) (fst (snd c)) (snd (snd c)) idx"]]
    by (simp add: initialize_Cons)
qed

lemma initialize_entries:
  assumes "(c, GraphParsed g, cf) \<in> set cs"
  shows "set (concat (map (entries_under (build_key_map (gm_keys g)) x) (gm_edges g)))
           \<subseteq> set (get_neighbors (initialize cs idx) x)"
proof -
  from assms obtain pre post where cs: "cs = pre @ (c, GraphParsed g, cf) # post"
    by (auto simp: in_set_conv_decomp)
  let ?i = "initialize pre idx"
  let ?j = "load_commune c (GraphParsed g) cf ?i"
  have fin: "initialize cs idx = initialize post ?j"
    by (simp add: cs initialize_append initialize_Cons)
  have "set (concat (map (entries_under (build_key_map (gm_keys g)) x) (gm_edges g)))
      \<subseteq> set (get_neighbors ?j x)"
    using set_mono_prefix[OF load_commune_entries[of ?i x g c cf]] by simp
  also have "\<dots> \<subseteq> set (get_neighbors (initialize post ?j) x)"
    using initialize_prefix[of ?j x post] by (rule set_mono_prefix)
  finally show ?thesis by (simp only: fin)
qed


subsection \<open>Node count and bidirectional edges\<close>

text \<open>
  C3 (amended). After loading any list of collections into the empty index, the indexed
  node count is the number of nodes, over the graph files that parse, whose id is not empty
  once the quotation marks around it are stripped, and the edge count is the number of
  edges whose source and target both are non-empty in that sense. Every such edge produces
  exactly two adjacency entries, one under each endpoint, with the same relationship type
  and weight and with the endpoints swapped: the loop over the edges appends these entries
  and nothing else, two per edge, and both are in the index when the load is over. A node
  or an edge with an empty id is skipped.
\<close>

theorem load_counts_and_bidirectional_edges:
  "total_nodes (initialize collections GraphIndex_init) = count_nodes collections \<and>
   total_edges (initialize collections GraphIndex_init) = count_edges collections \<and>
   (\<forall>x. get_neighbors (fst (load_edges key_map es idx)) x
          = get_neighbors idx x @ concat (map (entries_under key_map x) es)) \<and>
   num_entries (fst (load_edges key_map es idx))
     = num_entries idx + 2 * length (filter edge_kept es) \<and>
   ((c, GraphParsed g, cf) \<in> set collections \<and> e \<in> set (gm_edges g) \<and> edge_kept e \<longrightarrow>
      \<lparr>target = strip_quotes (ge_target e),
       rel_type = edge_rel_type (build_key_map (gm_keys g)) e,
       weight = edge_weight (build_key_map (gm_keys g)) e\<rparr>
        \<in> set (get_neighbors (initialize collections GraphIndex_init) (strip_quotes (ge_source e))) \<and>
      \<lparr>target = strip_quotes (ge_source e),
       rel_type = edge_rel_type (build_key_map (gm_keys g)) e,
       weight = edge_weight (build_key_map (gm_keys g)) e\<rparr>
        \<in> set (get_neighbors (initialize collections GraphIndex_init) (strip_quotes (ge_target e))))"
proof (intro conjI allI impI)
  show "total_nodes (initialize collections GraphIndex_init) = count_nodes collections"
    "total_edges (initialize collections GraphIndex_init) = count_edges collections"
    by (simp_all add: initialize_totals GraphIndex_init_def)
  show "get_neighbors (fst (load_edges key_map es idx)) x
          = get_neighbors idx x @ concat (map (entries_under key_map x) es)" for x
    by (simp add: load_edges_def load_edges_fold)
  show "num_entries (fst (load_edges key_map es idx))
     = num_entries idx + 2 * length (filter edge_kept es)"
    by (simp add: load_edges_def load_edges_fold)
next
  let ?km = "build_key_map (gm_keys g)"
  let ?fin = "initialize collections GraphIndex_init"
  assume a: "(c, GraphParsed g, cf) \<in> set collections \<and> e \<in> set (gm_edges g) \<and> edge_kept e"
  then have sub: "set (concat (map (entries_under ?km x) (gm_edges g)))
      \<subseteq> set (get_neighbors ?fin x)" for x
    using initialize_entries by blast
  have "\<lparr>target = strip_quotes (ge_target e), rel_type = edge_rel_type ?km e,
          weight = edge_weight ?km e\<rparr> \<in> set (entries_under ?km (strip_quotes (ge_source e)) e)"
    using a by (simp add: entries_under_def)
  then show "\<lparr>target = strip_quotes (ge_target e), rel_type = edge_rel_type ?km e,
          weight = edge_weight ?km e\<rparr> \<in> set (get_neighbors ?fin (strip_quotes (ge_source e)))"
    using a sub[of "strip_quotes (ge_source e)"] by auto
  have "\<lparr>target = strip_quotes (ge_source e), rel_type = edge_rel_type ?km e,
          weight = edge_weight ?km e\<rparr> \<in> set (entries_under ?km (strip_quotes (ge_target e)) e)"
    using a by (simp add: entries_under_def)
  then show "\<lparr>target = strip_quotes (ge_source e), rel_type = edge_rel_type ?km e,
          weight = edge_weight ?km e\<rparr> \<in> set (get_neighbors ?fin (strip_quotes (ge_target e)))"
    using a sub[of "strip_quotes (ge_target e)"] by auto
qed

text \<open>The equations that evaluate a load on concrete files.\<close>

lemmas load_eval =
  initialize_def load_commune_def load_nodes_def load_edges_def load_node_def load_edge_def
  load_commune_chunks_def build_key_map_def get_data_def adj_append_def edge_rel_type_def
  edge_weight_def py_or_def strip_quotes_def strip_def strip_chars_def is_space_def is_space_cp_def
  upper_def upper_cp_def store_chunk_def store_chunk_entity_def py_split_def split_on.simps
  dict_set_def dict_get_def Let_def
  GraphIndex_init_def RELATIONSHIP_WEIGHTS_def

theorem load_counts_and_bidirectional_edges_witness:
  "(''c1'', GraphParsed graph_xy, ChunksMissing)
     \<in> set [(''c1'', GraphParsed graph_xy, ChunksMissing)] \<and>
   \<lparr>ge_source = ''X'', ge_target = ''Y'', ge_data = [(''d1'', ''CONCERNE'')]\<rparr>
     \<in> set (gm_edges graph_xy) \<and>
   edge_kept \<lparr>ge_source = ''X'', ge_target = ''Y'', ge_data = [(''d1'', ''CONCERNE'')]\<rparr> \<and>
   total_nodes (initialize [(''c1'', GraphParsed graph_xy, ChunksMissing)] GraphIndex_init) = 2 \<and>
   total_edges (initialize [(''c1'', GraphParsed graph_xy, ChunksMissing)] GraphIndex_init) = 1 \<and>
   \<lparr>target = ''Y'', rel_type = ''CONCERNE'', weight = 1\<rparr>
     \<in> set (get_neighbors (initialize [(''c1'', GraphParsed graph_xy, ChunksMissing)]
                 GraphIndex_init) ''X'') \<and>
   \<lparr>target = ''X'', rel_type = ''CONCERNE'', weight = 1\<rparr>
     \<in> set (get_neighbors (initialize [(''c1'', GraphParsed graph_xy, ChunksMissing)]
                 GraphIndex_init) ''Y'')"
proof -
  let ?e = "\<lparr>ge_source = ''X'', ge_target = ''Y'', ge_data = [(''d1'', ''CONCERNE'')]\<rparr>"
  let ?cs = "[(''c1'', GraphParsed graph_xy, ChunksMissing)]"
  have h: "(''c1'', GraphParsed graph_xy, ChunksMissing) \<in> set ?cs \<and>
      ?e \<in> set (gm_edges graph_xy) \<and> edge_kept ?e"
    by (simp add: graph_xy_def edge_kept_def strip_quotes_def strip_chars_def)
  have k: "strip_quotes (ge_source ?e) = ''X''" "strip_quotes (ge_target ?e) = ''Y''"
    "edge_rel_type (build_key_map (gm_keys graph_xy)) ?e = ''CONCERNE''"
    "edge_weight (build_key_map (gm_keys graph_xy)) ?e = 1"
    by (simp_all add: graph_xy_def load_eval)
  have n: "count_nodes ?cs = 2" "count_edges ?cs = 1"
    by (simp_all add: count_nodes_def count_edges_def file_nodes_def file_edges_def graph_xy_def
        node_kept_def edge_kept_def strip_quotes_def strip_chars_def)
  from load_counts_and_bidirectional_edges [of ?cs "[]" "[]" GraphIndex_init "''c1''" graph_xy
      ChunksMissing ?e] h
  show ?thesis unfolding k n by blast
qed

text \<open>The two indexes of the concrete instances are what the loader builds.\<close>

lemma idx_triangle_loaded:
  "initialize [(''c1'', GraphParsed graph_triangle, ChunksMissing)] GraphIndex_init = idx_triangle"
  by code_simp

lemma idx_chunk_loaded:
  "initialize [(''c1'', GraphParsed graph_actor, chunks_actor)] GraphIndex_init = idx_chunk"
  by code_simp

text \<open>
  The claim as stated fails on a graph file with a node whose id is \<^verbatim>\<open>""\<close> and an edge
  from it: one node and one directed edge are in the file, the node count is 0 and no
  adjacency entry is made.
\<close>

theorem load_skips_empty_ids_counterexample:
  "length (gm_nodes graph_quotes) = 1 \<and> length (gm_edges graph_quotes) = 1 \<and>
   total_nodes (initialize [(''c1'', GraphParsed graph_quotes, ChunksMissing)] GraphIndex_init) = 0 \<and>
   adjacency (initialize [(''c1'', GraphParsed graph_quotes, ChunksMissing)] GraphIndex_init) = []"
  by (simp add: graph_quotes_def load_eval)

subsection \<open>Letters outside ASCII and contents that are not strings\<close>

lemma upper_beyond_ascii:
  "upper [CHR 0xE9, CHR ''t'', CHR 0xE9] = [201, 84, 201]"
  "upper [CHR 0xB5, CHR 0xDF, CHR 0xFF] = [924, 83, 83, 376]"
  by (simp_all add: upper_def upper_cp_def)

lemma strip_beyond_ascii: "strip [CHR 0xA0, CHR ''a'', CHR 0x85] = ''a''"
  by (simp add: strip_def strip_chars_def is_space_def is_space_cp_def)

text \<open>
  A chunk whose content is \<^verbatim>\<open>null\<close>: its metadata is stored, the loop raises before its
  pseudo-entity is, and no count is returned.
\<close>

lemma null_content_chunk:
  "load_commune_chunks ''c1''
     (ChunksData [(''K'', ChunkRecord \<lparr>ci_content = None, ci_tokens = 1, ci_chunk_order_index = 0,
                            ci_full_doc_id = ''doc'', ci_contribution_number = None,
                            ci_contribution_type = None, ci_demographic = None\<rparr>)])
     GraphIndex_init =
   (GraphIndex_init\<lparr>chunks :=
       [(''K'', \<lparr>chunk_id = ''K'', content = None, tokens = 1, chunk_order_index = 0,
                  full_doc_id = ''doc'', chunk_commune = ''c1'', contribution_number = None,
                  contribution_type = None, demographic = None\<rparr>)]\<rparr>, None)"
  by (simp add: load_commune_chunks_def store_chunk_def dict_set_def GraphIndex_init_def)

section \<open>Properties of the community cache\<close>

subsection \<open>Lookups after a store\<close>

lemma dict_get_set: "dict_get (dict_set d k v) x = (if x = k then Some v else dict_get d x)"
  by (simp add: dict_get_def dict_set_def AList.update_conv)

lemma dict_get_Nil: "dict_get [] k = None"
  by (simp add: dict_get_def)

lemma get_community_store:
  "get_community (store_community cid m x cc) c m' =
     (if c = cid \<and> m' = m then Some x else get_community cc c m')"
  by (cases "dict_get (communities cc) cid")
     (simp_all add: get_community_def store_community_def dict_get_set dict_get_Nil)

lemma get_community_reset:
  "get_community (cc\<lparr>communities := dict_set (communities cc) cid []\<rparr>) c m =
     (if c = cid then None else get_community cc c m)"
  by (simp add: get_community_def dict_get_set dict_get_Nil)

lemma get_community_index [simp]:
  "get_community (cc\<lparr>keyword_index := ki\<rparr>) c m = get_community cc c m"
  by (simp add: get_community_def)

subsection \<open>The keyword index after a community is indexed\<close>

lemma total_score_nonneg: "0 \<le> total_score U t s k"
  by (simp add: total_score_def title_score_def summary_score_def)

lemma fold_add_keyword:
  assumes "distinct ks"
  shows "fold (add_keyword U cid m t s) ks ki kw =
     (if kw \<in> set ks \<and> 0 < total_score U t s kw then ki kw @ [(cid, m, total_score U t s kw)]
      else ki kw)"
  using assms
proof (induction ks arbitrary: ki)
  case Nil then show ?case by simp
next
  case (Cons k ks)
  then have IH: "fold (add_keyword U cid m t s) ks (add_keyword U cid m t s k ki) kw =
     (if kw \<in> set ks \<and> 0 < total_score U t s kw
      then add_keyword U cid m t s k ki kw @ [(cid, m, total_score U t s kw)]
      else add_keyword U cid m t s k ki kw)" by simp
  from Cons.prems have "k \<notin> set ks" by simp
  then show ?case unfolding fold_simps IH by (auto simp: add_keyword_def)
qed

lemma key_sum_append: "key_sum (es @ fs) key = key_sum es key + key_sum fs key"
  by (simp add: key_sum_def)

lemma distinct_keywords_of: "order_ok U \<Longrightarrow> distinct (keywords_of U t s)"
  by (simp add: keywords_of_def token_set_def order_ok_def)

subsection \<open>The invariant of the cache\<close>

lemma cache_inv_index_community:
  assumes ok: "order_ok U" and inv: "cache_inv U cc" and none: "get_community cc cid m = None"
    and r: "\<not> num_less r 4"
    and x: "x = \<lparr>commune_id = cid, community_id = m, title = t, summary = s, rating = r,
                  nodes = ns, chunk_ids = cs\<rparr>"
    and cc2: "cc2 = (store_community cid m x cc)\<lparr>keyword_index :=
                 fold (add_keyword U cid m t s) (keywords_of U t s)
                   (keyword_index (store_community cid m x cc))\<rparr>"
  shows "cache_inv U cc2"
    and "get_community cc2 c m' = (if c = cid \<and> m' = m then Some x else get_community cc c m')"
proof -
  show g: "get_community cc2 c m' = (if c = cid \<and> m' = m then Some x else get_community cc c m')"
    for c m' by (simp add: cc2 get_community_store)
  have ki0: "keyword_index (store_community cid m x cc) = keyword_index cc"
    by (simp add: store_community_def)
  have ki: "keyword_index cc2 kw =
      (if kw \<in> set (keywords_of U t s) \<and> 0 < total_score U t s kw
       then keyword_index cc kw @ [(cid, m, total_score U t s kw)] else keyword_index cc kw)" for kw
    by (simp add: cc2 ki0 fold_add_keyword[OF distinct_keywords_of[OF ok]])
  have kv: "keyword_value U x kw =
      (if kw \<in> set (keywords_of U t s) \<and> 0 < total_score U t s kw then total_score U t s kw else 0)"
    for kw
    using total_score_nonneg[of U t s kw] by (auto simp: keyword_value_def x)
  have 1: "\<forall>c m' y. get_community cc2 c m' = Some y \<longrightarrow>
             commune_id y = c \<and> community_id y = m' \<and> \<not> num_less (rating y) 4"
    using inv r by (auto simp: g cache_inv_def x split: if_splits)
  have 2: "\<forall>kw. \<forall>e \<in> set (keyword_index cc2 kw). 0 < snd (snd e)"
    using inv by (auto simp: ki cache_inv_def split: if_splits)
  have 3: "key_sum (keyword_index cc2 kw) (c, m') =
        (case get_community cc2 c m' of None \<Rightarrow> 0 | Some y \<Rightarrow> keyword_value U y kw)" for kw c m'
  proof (cases "c = cid \<and> m' = m")
    case True
    have "key_sum (keyword_index cc kw) (cid, m) = 0"
      using inv none by (simp add: cache_inv_def)
    then have "key_sum (keyword_index cc2 kw) (cid, m) = keyword_value U x kw"
      by (simp add: ki kv key_sum_append) (simp add: key_sum_def)
    then show ?thesis using True by (simp add: g)
  next
    case False
    then have "key_sum (keyword_index cc2 kw) (c, m') = key_sum (keyword_index cc kw) (c, m')"
      by (auto simp: ki key_sum_append) (auto simp: key_sum_def)
    moreover have "get_community cc2 c m' = get_community cc c m'" using False by (auto simp: g)
    moreover have "key_sum (keyword_index cc kw) (c, m') =
        (case get_community cc c m' of None \<Rightarrow> 0 | Some y \<Rightarrow> keyword_value U y kw)"
      using inv by (simp add: cache_inv_def)
    ultimately show ?thesis by simp
  qed
  show "cache_inv U cc2" unfolding cache_inv_def using 1 2 3 by blast
qed

lemma load_communities_inv:
  assumes ok: "order_ok U"
    and "cache_inv U cc" "distinct (map fst d)" "\<forall>m \<in> fst ` set d. get_community cc cid m = None"
  shows "cache_inv U (load_communities U cid d cc) \<and>
         (\<forall>c m. c \<noteq> cid \<longrightarrow> get_community (load_communities U cid d cc) c m = get_community cc c m)"
  using assms(2-)
proof (induction d arbitrary: cc)
  case Nil then show ?case by simp
next
  case (Cons a d)
  obtain m cd where a: "a = (m, cd)" by (cases a)
  from Cons.prems have dd: "distinct (map fst d)" and mn: "m \<notin> fst ` set d"
    and n0: "get_community cc cid m = None"
    and nd: "\<forall>m' \<in> fst ` set d. get_community cc cid m' = None"
    by (auto simp: a)
  note skip = Cons.IH[OF Cons.prems(1) dd nd]
  show ?case
  proof (cases "cd_report cd")
    case None
    then show ?thesis using skip by (simp add: a)
  next
    case (Some report)
    show ?thesis
    proof (cases "case rj_rating report of None \<Rightarrow> RatingNumber (PyNum 0) | Some r \<Rightarrow> r")
      case RatingNotNumber
      then show ?thesis using Cons.prems(1) by (simp add: a Some)
    next
      case (RatingNumber r)
      show ?thesis
      proof (cases "num_less r 4")
        case True
        then show ?thesis using skip by (simp add: a Some RatingNumber)
      next
        case False
        let ?x = "\<lparr>commune_id = cid, community_id = m, title = rj_title report,
                    summary = rj_summary report, rating = r, nodes = cd_nodes cd,
                    chunk_ids = cd_chunk_ids cd\<rparr>"
        let ?cc2 = "(store_community cid m ?x cc)\<lparr>keyword_index :=
                 fold (add_keyword U cid m (rj_title report) (rj_summary report))
                   (keywords_of U (rj_title report) (rj_summary report))
                   (keyword_index (store_community cid m ?x cc))\<rparr>"
        note st = cache_inv_index_community[OF ok Cons.prems(1) n0 False refl refl,
            of "rj_title report" "rj_summary report" "cd_nodes cd" "cd_chunk_ids cd"]
        have nd2: "\<forall>m' \<in> fst ` set d. get_community ?cc2 cid m' = None"
          using nd mn by (auto simp: get_community_store)
        have eq: "load_communities U cid (a # d) cc = load_communities U cid d ?cc2"
          using False by (simp add: a Some RatingNumber Let_def)
        have ih: "cache_inv U (load_communities U cid d ?cc2) \<and>
            (\<forall>c m'. c \<noteq> cid \<longrightarrow>
               get_community (load_communities U cid d ?cc2) c m' = get_community ?cc2 c m')"
          by (rule Cons.IH[OF st(1) dd nd2])
        show ?thesis unfolding eq
        proof (intro conjI allI impI)
          show "cache_inv U (load_communities U cid d ?cc2)" using ih by blast
        next
          fix c m' assume c: "c \<noteq> cid"
          then have "get_community (load_communities U cid d ?cc2) c m' = get_community ?cc2 c m'"
            using ih by blast
          also have "\<dots> = get_community cc c m'" using c by (simp add: get_community_store)
          finally show "get_community (load_communities U cid d ?cc2) c m' = get_community cc c m'" .
        qed
      qed
    qed
  qed
qed

lemma load_commune_reports_inv:
  assumes ok0: "order_ok U" and inv: "cache_inv U cc" and fresh: "\<forall>m. get_community cc (fst f) m = None"
    and ok: "case snd f of CommunitiesUnreadable \<Rightarrow> True | CommunitiesData d \<Rightarrow> distinct (map fst d)"
  shows "cache_inv U (load_commune_reports U f cc) \<and>
         (\<forall>c m. c \<noteq> fst f \<longrightarrow> get_community (load_commune_reports U f cc) c m = get_community cc c m)"
proof (cases "snd f")
  case CommunitiesUnreadable
  then show ?thesis using inv by (simp add: load_commune_reports_def)
next
  case (CommunitiesData d)
  let ?cc1 = "cc\<lparr>communities := dict_set (communities cc) (fst f) []\<rparr>"
  have g: "get_community ?cc1 c m = get_community cc c m" for c m
    using fresh by (simp add: get_community_reset)
  have ki: "keyword_index ?cc1 = keyword_index cc" by simp
  have inv1: "cache_inv U ?cc1" using inv unfolding cache_inv_def g ki .
  have "distinct (map fst d)" using ok CommunitiesData by simp
  moreover have "\<forall>m \<in> fst ` set d. get_community ?cc1 (fst f) m = None"
    using fresh by (simp add: g)
  ultimately show ?thesis
    using load_communities_inv[OF ok0 inv1, of d "fst f"]
    by (simp add: load_commune_reports_def CommunitiesData g)
qed

lemma fold_load_commune_reports_inv:
  assumes ok0: "order_ok U"
    and "cache_inv U cc" "files_ok files" "\<forall>f \<in> set files. \<forall>m. get_community cc (fst f) m = None"
  shows "cache_inv U (fold (load_commune_reports U) files cc)"
  using assms(2-)
proof (induction files arbitrary: cc)
  case Nil then show ?case by simp
next
  case (Cons f files)
  from Cons.prems(2) have okf: "case snd f of CommunitiesUnreadable \<Rightarrow> True
        | CommunitiesData d \<Rightarrow> distinct (map fst d)"
    and ok': "files_ok files" and nf: "fst f \<notin> fst ` set files"
    by (auto simp: files_ok_def)
  from Cons.prems(3) have fresh: "\<forall>m. get_community cc (fst f) m = None" by simp
  note st = load_commune_reports_inv[OF ok0 Cons.prems(1) fresh okf]
  have "\<forall>g \<in> set files. \<forall>m. get_community (load_commune_reports U f cc) (fst g) m = None"
  proof (intro ballI allI)
    fix g m assume g: "g \<in> set files"
    then have "fst g \<in> fst ` set files" by (rule imageI)
    with nf have "fst g \<noteq> fst f" by metis
    then show "get_community (load_commune_reports U f cc) (fst g) m = None"
      using st Cons.prems(3) g by simp
  qed
  with st ok' show ?case using Cons.IH[of "load_commune_reports U f cc"] by simp
qed

lemma cache_inv_init: "cache_inv U CommunityCache_init"
  by (simp add: cache_inv_def CommunityCache_init_def get_community_def dict_get_Nil key_sum_def)

lemma refresh_cache_inv:
  assumes ok0: "order_ok U" and ok: "files_ok files"
  shows "cache_inv U (refresh_cache U files cc)"
proof -
  let ?c0 = "cc\<lparr>communities := [], keyword_index := (\<lambda>k. [])\<rparr>"
  have a: "cache_inv U ?c0"
    by (simp add: cache_inv_def get_community_def dict_get_Nil key_sum_def)
  have b: "\<forall>f \<in> set files. \<forall>m. get_community ?c0 (fst f) m = None"
    by (simp add: get_community_def dict_get_Nil)
  show ?thesis unfolding refresh_cache_def by (rule fold_load_commune_reports_inv[OF ok0 a ok b])
qed

lemma cache_states_inv:
  assumes "order_ok U" and "cc \<in> cache_states U"
  shows "cache_inv U cc"
  using assms(2)
  by (induction rule: cache_states.induct) (simp_all add: cache_inv_init refresh_cache_inv[OF assms(1)])

subsection \<open>Scores of the aggregation\<close>














subsection \<open>The number of stored communities\<close>





subsection \<open>The loop over the sorted matches\<close>

lemma result_of_fields [simp]:
  "commune_id (result_of c s) = commune_id c" "community_id (result_of c s) = community_id c"
  "rating (result_of c s) = rating c" "score (result_of c s) = s"
  by (simp_all add: result_of_def community.defs)







subsection \<open>Title matches outscore summary matches\<close>




subsection \<open>A concrete cache\<close>

text \<open>The equations that evaluate a refresh and a search on concrete files.\<close>

lemmas cache_eval =
  refresh_cache_def load_commune_reports_def store_community_def add_keyword_def keywords_of_def
  token_set_def findall_words_def latin1_def latin1_lower_def latin1_word_def stop_words_def
  py_str_def total_score_def title_score_def summary_score_def CommunityCache_init_def
  dict_set_def dict_get_def get_community_def query_words_def Let_def

lemma py_str_eq [simp]: "py_str a = py_str b \<longleftrightarrow> a = b"
  by (auto simp: py_str_def list_eq_iff_nth_eq)


lemma accented_tokens:
  "lower latin1 title_accents =
     py_str ''s'' @ [233] @ py_str ''curit'' @ [233] @ py_str '' routi'' @ [232] @ py_str ''re''"
  "findall_words latin1 (lower latin1 title_accents) =
     [py_str ''s'' @ [233] @ py_str ''curit'' @ [233], py_str ''routi'' @ [232] @ py_str ''re'']"
  by (simp_all add: title_accents_def cache_eval)




lemma query_budget: "query_words latin1 (py_str ''Le Budget'') = [py_str ''budget'']"
  by (simp add: cache_eval)



subsection \<open>The quality floor\<close>

lemma num_ge_iff: "num_ge r b \<longleftrightarrow> \<not> num_less r b \<and> r \<noteq> PyNaN"
  by (cases r) auto

lemma stored_rating_not_below_floor:
  assumes "order_ok U" "cc \<in> cache_states U" "get_community cc cid m = Some c"
  shows "\<not> num_less (rating c) 4" and "rating c \<noteq> PyNaN \<Longrightarrow> num_ge (rating c) 4"
proof -
  have "cache_inv U cc" using assms(1,2) by (rule cache_states_inv)
  with assms(3) show a: "\<not> num_less (rating c) 4" by (simp add: cache_inv_def)
  then show "rating c \<noteq> PyNaN \<Longrightarrow> num_ge (rating c) 4" by (simp add: num_ge_iff)
qed

lemma cache_nan_communities:
  "communities cache_nan = [(py_str ''c1'', [(py_str ''m1'', community_nan)])]"
  by (simp add: cache_nan_def reports_nan_def community_nan_def cache_eval)

lemma cache_nan_budget:
  "keyword_index cache_nan (py_str ''budget'') = [(py_str ''c1'', py_str ''m1'', 3)]"
  by (simp add: cache_nan_def reports_nan_def cache_eval)

text \<open>
  C9. The test that keeps low-rated communities out of the cache is \<^verbatim>\<open>rating < 4.0\<close>,
  and it is false of the rating \<^verbatim>\<open>NaN\<close>, which \<^verbatim>\<open>json.load\<close> reads from a report file.
  A refresh from the file \<open>reports_nan\<close> stores the community with the rating NaN and
  enters it into the keyword index, and \<^verbatim>\<open>search\<close> returns it: a community whose rating
  is not greater than or equal to 4.0.
\<close>

theorem nan_rating_is_stored_and_returned:
  "get_community (refresh_cache latin1 reports_nan CommunityCache_init) (py_str ''c1'') (py_str ''m1'')
     = Some community_nan \<and>
   rating community_nan = PyNaN \<and> \<not> num_ge (rating community_nan) 4 \<and>
   keyword_index (refresh_cache latin1 reports_nan CommunityCache_init) (py_str ''budget'')
     = [(py_str ''c1'', py_str ''m1'', 3)] \<and>
   search latin1 (refresh_cache latin1 reports_nan CommunityCache_init) (py_str ''Le Budget'') 15 50
     = [result_of community_nan 3] \<and>
   \<not> num_ge (rating (result_of community_nan 3)) 4"
proof -
  have g: "get_community cache_nan (py_str ''c1'') (py_str ''m1'') = Some community_nan"
    by (simp add: get_community_def dict_get_def cache_nan_communities)
  have r: "rating community_nan = PyNaN" by (simp add: community_nan_def)
  have s: "search latin1 cache_nan (py_str ''Le Budget'') 15 50 = [result_of community_nan 3]"
    unfolding search_def query_budget Let_def aggregate_scores_def
    by (simp add: add_score_def cache_nan_budget get_community_def dict_get_def dict_set_def
        cache_nan_communities)
  show ?thesis using g r s cache_nan_budget by (simp add: cache_nan_def)
qed

end
